theory Spec2Isabelle
  imports Main "HOL-Library.Word"
begin

unbundle bit_operations_syntax

section \<open>The watch runtime of use-watch.ts\<close>

text \<open>
  The development embeds \<^verbatim>\<open>packages/qwik/src/core/use/use-watch.ts\<close>: the watch
  descriptor, \<^verbatim>\<open>runWatch\<close>, \<^verbatim>\<open>cleanupWatch\<close>, \<^verbatim>\<open>destroyWatch\<close>, the Tracker
  closure built inside \<^verbatim>\<open>runWatch\<close>, and the two registrars \<^verbatim>\<open>useWatchQrl\<close> and
  \<^verbatim>\<open>useClientEffectQrl\<close>.  JavaScript is single threaded: a synchronous block runs to
  its end, and promise callbacks run later as microtasks.  The model is therefore a world
  record updated by each synchronous block, with the promise states, the registered promise
  reactions and the microtask queue written out.  An exception is a value: every function
  that can throw returns the escaping exception (if any) next to the world it leaves
  behind, because the mutations made before a throw stay.
\<close>

subsection \<open>Flags\<close>

text \<open>The flags are combined with the bitwise operators, which work on 32-bit integers.\<close>

type_synonym flags = "32 word"

definition WatchFlagsIsEffect :: flags where
  "WatchFlagsIsEffect = push_bit 0 1"

definition WatchFlagsIsWatch :: flags where
  "WatchFlagsIsWatch = push_bit 1 1"

definition WatchFlagsIsDirty :: flags where
  "WatchFlagsIsDirty = push_bit 2 1"

definition WatchFlagsIsCleanup :: flags where
  "WatchFlagsIsCleanup = push_bit 3 1"

subsection \<open>Values, functions, exceptions\<close>

text \<open>
  A promise is an object of its own; its identity is a serial number, tagged with the
  expression that created it: the \<^verbatim>\<open>new Promise\<close> of \<^verbatim>\<open>runWatch\<close> (\<open>Handle\<close>), the
  promise an \<^verbatim>\<open>async\<close> body returns (\<open>BodyResult\<close>), the promise \<^verbatim>\<open>.then\<close> returns to
  \<^verbatim>\<open>useWatchQrl\<close> (\<open>Derived\<close>), or a \<^verbatim>\<open>Promise.resolve\<close> (\<open>Resolved\<close>).
\<close>

datatype pkind = Handle | BodyResult | Derived | Resolved

type_synonym pid = "pkind \<times> nat"

datatype error = AssertionError | Thrown nat

text \<open>
  A function value of no arguments, as an effect body returns for its cleanup: its
  identity, and the exception it throws when called (if it throws).
\<close>

datatype fn = Fn (fn_id: nat) (fn_throws: "error option")

text \<open>
  The values the code handles.  \<open>VWatch\<close> is the descriptor object itself (what a run's
  promise resolves with).  An object carries what \<^verbatim>\<open>getProxyTarget\<close> answers for it
  (\<open>None\<close> for \<^verbatim>\<open>undefined\<close>, that is, for an object that is not a store proxy) and
  its properties.
\<close>

datatype val =
    VUndefined
  | VNum int
  | VFun fn
  | VWatch
  | VObject (obj_id: nat) (obj_target: "nat option") (obj_props: "(string \<times> val) list")

text \<open>
  Modelled from the spec: \<^verbatim>\<open>getProxyTarget\<close> of \<^verbatim>\<open>../object/q-object\<close> is not in the
  sources; the spec gives \<^verbatim>\<open>getProxyTarget(obj) -> target | undefined\<close>, defined for a
  proxied object only.
\<close>

fun getProxyTarget :: "val \<Rightarrow> nat option" where
  "getProxyTarget (VObject _ t _) = t"
| "getProxyTarget _ = None"

text \<open>The property read \<^verbatim>\<open>obj[prop]\<close>; a missing property reads as \<^verbatim>\<open>undefined\<close>.\<close>

fun get_prop :: "val \<Rightarrow> string \<Rightarrow> val" where
  "get_prop (VObject _ _ ps) k = (case map_of ps k of None \<Rightarrow> VUndefined | Some v \<Rightarrow> v)"
| "get_prop _ k = VUndefined"

text \<open>
  The truthiness test \<^verbatim>\<open>if (prop)\<close> on an optional string: \<^verbatim>\<open>undefined\<close> and the
  empty string are falsy.
\<close>

fun truthy :: "string option \<Rightarrow> bool" where
  "truthy None = False"
| "truthy (Some k) = (k \<noteq> [])"

subsection \<open>The descriptor and the world\<close>

record WatchDescriptor =
  qrl :: nat
  el :: nat
  f :: flags
  i :: nat
  destroy :: "fn option"
  running :: "pid option"

datatype pstate = Pending | Fulfilled val | Rejected error

text \<open>
  The closures the code hands to \<^verbatim>\<open>then\<close>, by what they capture.
  \<open>KRun p\<close> is the callback of \<^verbatim>\<open>then(watch.running, () => ...)\<close> inside the executor of
  the promise \<open>p\<close>; \<open>KBody p\<close> is the callback \<^verbatim>\<open>(returnValue) => ...\<close> that resolves
  \<open>p\<close>; \<open>KInit d\<close> is \<^verbatim>\<open>() => runWatch(watch, containerState)\<close> of \<^verbatim>\<open>useWatchQrl\<close>,
  whose \<^verbatim>\<open>.then\<close> promise is \<open>d\<close>; \<open>KAdopt d\<close> settles \<open>d\<close> with the outcome of the
  promise that \<open>d\<close> was resolved with.
\<close>

datatype cont = KRun pid | KBody pid | KInit pid | KAdopt pid

text \<open>
  A microtask: a reaction job (the promise it reacts to, the handler, the value the
  promise was fulfilled with), a rejection passed on to an adopting promise, or the job
  that subscribes a promise \<open>d\<close> to the promise \<open>p\<close> it was resolved with.
\<close>

datatype job = React pid cont val | PassReject pid error | Thenable pid pid

text \<open>
  What the calls leave behind, in order: the observable calls into collaborators.
  \<open>EvRunStart p q\<close> marks the start of the run callback of promise \<open>p\<close>, reached through
  the promise \<open>q\<close> it had to wait for (\<open>None\<close> when \<^verbatim>\<open>watch.running\<close> was undefined and
  the callback ran at once).  \<open>EvBody fl\<close> is the invocation of the effect body, with the
  descriptor's flags at that moment.
\<close>

datatype event =
    EvLogDebug
  | EvRunStart pid "pid option"
  | EvCall fn
  | EvLogError error
  | EvClearSub
  | EvBody flags
  | EvQrlCall fn
  | EvUnhandled error

datatype run_opt = RunVisible | RunLoad

text \<open>
  The world of one descriptor.  \<^verbatim>\<open>runWatch\<close>, \<^verbatim>\<open>cleanupWatch\<close> and
  \<^verbatim>\<open>destroyWatch\<close> read and write the fields of the descriptor they are given, the
  promises they create and, in the shared subscription manager, the entries of that
  descriptor only; so the world holds one descriptor, its subscriptions, and the promises
  and microtasks of its runs.  \<open>bodies\<close> lists the promises that \<^verbatim>\<open>async\<close> bodies
  returned, \<open>waitOn\<close> what was passed to \<^verbatim>\<open>useWaitOn\<close>, \<open>slot\<close> whether the
  sequential scope of the effect site holds a value, \<open>watches\<close> the effect list of the
  element, \<open>hooks\<close> the run triggers registered and \<open>observed\<close> whether the element was
  handed to the intersection observer.
\<close>

record world =
  watch :: WatchDescriptor
  subs :: "(nat \<times> string option) list"
  log :: "event list"
  pstates :: "pid \<Rightarrow> pstate"
  next_pid :: nat
  reactions :: "(pid \<times> cont) list"
  queue :: "job list"
  bodies :: "pid list"
  waitOn :: "pid list"
  slot :: bool
  watches :: "WatchDescriptor list"
  hooks :: "run_opt list"
  observed :: bool

subsection \<open>Promises\<close>

text \<open>
  \<^verbatim>\<open>new Promise\<close>: a fresh identity.  Identities not yet handed out are pending and carry
  no reaction.
\<close>

definition new_promise :: "pkind \<Rightarrow> world \<Rightarrow> pid \<times> world" where
  "new_promise c s = ((c, next_pid s), s\<lparr>next_pid := Suc (next_pid s)\<rparr>)"

text \<open>\<^verbatim>\<open>Promise.resolve(v)\<close> for a value that is not a promise: a fresh fulfilled promise.\<close>

definition promise_resolve :: "val \<Rightarrow> world \<Rightarrow> pid \<times> world" where
  "promise_resolve v s =
     ((Resolved, next_pid s),
      s\<lparr>pstates := (pstates s)((Resolved, next_pid s) := Fulfilled v),
        next_pid := Suc (next_pid s)\<rparr>)"

text \<open>The job a handler becomes when its promise is fulfilled with \<open>v\<close> or rejected.\<close>

definition fulfil_jobs :: "pid \<Rightarrow> val \<Rightarrow> (pid \<times> cont) list \<Rightarrow> job list" where
  "fulfil_jobs p v rs = map (\<lambda>(q, k). React p k v) (filter (\<lambda>(q, k). q = p) rs)"

fun reject_job :: "error \<Rightarrow> cont \<Rightarrow> job list" where
  "reject_job e (KAdopt d) = [PassReject d e]"
| "reject_job e _ = []"

definition reject_jobs :: "pid \<Rightarrow> error \<Rightarrow> (pid \<times> cont) list \<Rightarrow> job list" where
  "reject_jobs p e rs = concat (map (\<lambda>(q, k). reject_job e k) (filter (\<lambda>(q, k). q = p) rs))"

text \<open>
  The \<^verbatim>\<open>resolve\<close> function of a promise, called with a value that is not a promise: a
  pending promise becomes fulfilled and its handlers are queued in the order they were
  registered; a settled promise ignores the call.
\<close>

definition resolve_promise :: "pid \<Rightarrow> val \<Rightarrow> world \<Rightarrow> world" where
  "resolve_promise p v s =
     (if pstates s p = Pending
      then s\<lparr>pstates := (pstates s)(p := Fulfilled v),
             queue := queue s @ fulfil_jobs p v (reactions s),
             reactions := filter (\<lambda>(q, k). q \<noteq> p) (reactions s)\<rparr>
      else s)"

text \<open>
  Rejection: the code registers fulfilment handlers only, so on rejection a \<open>KRun\<close>,
  \<open>KBody\<close> or \<open>KInit\<close> handler is dropped (the promise \<^verbatim>\<open>.then\<close> returned for it is
  rejected and nobody holds it), and an adopting promise is rejected in turn.
\<close>

definition reject_promise :: "pid \<Rightarrow> error \<Rightarrow> world \<Rightarrow> world" where
  "reject_promise p e s =
     (if pstates s p = Pending
      then s\<lparr>pstates := (pstates s)(p := Rejected e),
             queue := queue s @ reject_jobs p e (reactions s),
             reactions := filter (\<lambda>(q, k). q \<noteq> p) (reactions s)\<rparr>
      else s)"

text \<open>
  \<^verbatim>\<open>p.then(k)\<close> on a promise: the handler waits while \<open>p\<close> is pending, is queued as a
  microtask when \<open>p\<close> is already fulfilled, and follows the rejection rule above when \<open>p\<close>
  is already rejected.
\<close>

definition promise_then :: "pid \<Rightarrow> cont \<Rightarrow> world \<Rightarrow> world" where
  "promise_then p k s =
     (case pstates s p of
        Pending \<Rightarrow> s\<lparr>reactions := reactions s @ [(p, k)]\<rparr>
      | Fulfilled v \<Rightarrow> s\<lparr>queue := queue s @ [React p k v]\<rparr>
      | Rejected e \<Rightarrow> s\<lparr>queue := queue s @ reject_job e k\<rparr>)"

text \<open>
  Modelled from the spec: \<^verbatim>\<open>then\<close> of \<^verbatim>\<open>../util/promises\<close> is not in the sources.  The
  spec has the runner await the previous run and await the body's result if it is
  asynchronous; so for a promise \<^verbatim>\<open>then(x, k)\<close> is \<^verbatim>\<open>x.then(k)\<close>, and for any other value
  it is the call \<^verbatim>\<open>k(x)\<close>, made at once.  A \<^verbatim>\<open>ValueOrPromise\<close> is a value at hand or a
  promise; the closure is given twice, by its name \<open>k\<close> for the reaction and by its code
  \<open>call\<close> for the direct call.
\<close>

datatype 'a value_or_promise = Sync 'a | Async pid

definition then_fn ::
  "'a value_or_promise \<Rightarrow> cont \<Rightarrow> ('a \<Rightarrow> world \<Rightarrow> error option \<times> world) \<Rightarrow> world
     \<Rightarrow> error option \<times> world" where
  "then_fn x k call s =
     (case x of
        Async p \<Rightarrow> (None, promise_then p k s)
      | Sync v \<Rightarrow> call v s)"

subsection \<open>Collaborators\<close>

text \<open>
  Modelled from the spec: the subscription manager of \<^verbatim>\<open>../render/notify-render\<close> is
  not in the sources.  The spec gives \<^verbatim>\<open>getLocal(target) -> manager\<close>,
  \<^verbatim>\<open>manager.addSub(subscriber, property?)\<close> and \<^verbatim>\<open>clearSub(subscriber)\<close>, safe to call
  repeatedly.  The world keeps the subscriptions of its descriptor: the pairs of a target
  and the property argument as it was passed (\<open>None\<close> for a call without one).
\<close>

definition addSub :: "nat \<Rightarrow> string option \<Rightarrow> world \<Rightarrow> world" where
  "addSub target prop s = s\<lparr>subs := List.insert (target, prop) (subs s)\<rparr>"

definition clearSub :: "world \<Rightarrow> world" where
  "clearSub s = s\<lparr>subs := [], log := log s @ [EvClearSub]\<rparr>"

text \<open>
  Modelled from the spec: the notifier is not in the sources; the spec has IS_DIRTY set by
  a mutation of a property the descriptor subscribes to.
\<close>

definition notify :: "world \<Rightarrow> world" where
  "notify s = s\<lparr>watch := (watch s)\<lparr>f := f (watch s) OR WatchFlagsIsDirty\<rparr>\<rparr>"

text \<open>Calling a function value: the call is recorded, and it returns or throws.\<close>

definition call_fn :: "fn \<Rightarrow> world \<Rightarrow> error option \<times> world" where
  "call_fn g s = (fn_throws g, s\<lparr>log := log s @ [EvCall g]\<rparr>)"

definition logError :: "error \<Rightarrow> world \<Rightarrow> world" where
  "logError e s = s\<lparr>log := log s @ [EvLogError e]\<rparr>"

subsection \<open>cleanupWatch and destroyWatch\<close>

text \<open>
  \<^verbatim>\<open>cleanupWatch\<close>: the slot is emptied before the call, and the \<^verbatim>\<open>try\<close>/\<^verbatim>\<open>catch\<close>
  turns an exception of the call into a \<^verbatim>\<open>logError\<close>.  The first component is the
  exception that escapes.
\<close>

definition cleanupWatch :: "world \<Rightarrow> error option \<times> world" where
  "cleanupWatch s =
     (case destroy (watch s) of
        None \<Rightarrow> (None, s)
      | Some d \<Rightarrow>
          (case call_fn d (s\<lparr>watch := (watch s)\<lparr>destroy := None\<rparr>\<rparr>) of
             (None, s') \<Rightarrow> (None, s')
           | (Some err, s') \<Rightarrow> (None, logError err s')))"

text \<open>
  \<^verbatim>\<open>destroyWatch\<close>.  The function \<open>c\<close> is what \<^verbatim>\<open>watch.qrl.invokeFn(watch.el)\<close> gives:
  the registered callback, called with no argument and outside any \<^verbatim>\<open>try\<close>.
\<close>

definition destroyWatch :: "fn \<Rightarrow> world \<Rightarrow> error option \<times> world" where
  "destroyWatch c s =
     (if f (watch s) AND WatchFlagsIsCleanup \<noteq> 0
      then
        (let s1 = s\<lparr>watch := (watch s)\<lparr>f := f (watch s) AND NOT WatchFlagsIsCleanup\<rparr>\<rparr>
         in (fn_throws c, s1\<lparr>log := log s1 @ [EvQrlCall c]\<rparr>))
      else cleanupWatch s)"

subsection \<open>The Tracker\<close>

text \<open>
  Modelled from the spec: \<^verbatim>\<open>assertDefined\<close> of \<^verbatim>\<open>../assert/assert\<close> is not in the
  sources; the spec has the tracker fail fast with an assertion-style error on an object
  that is not trackable, so \<^verbatim>\<open>assertDefined\<close> throws on \<^verbatim>\<open>undefined\<close>.
\<close>

definition assertDefined :: "nat option \<Rightarrow> error option" where
  "assertDefined t = (case t of None \<Rightarrow> Some AssertionError | Some _ \<Rightarrow> None)"

text \<open>The closure \<^verbatim>\<open>track\<close> of \<^verbatim>\<open>runWatch\<close>: the exception or the value returned.\<close>

definition track :: "val \<Rightarrow> string option \<Rightarrow> world \<Rightarrow> (error + val) \<times> world" where
  "track obj prop s =
     (let target = getProxyTarget obj in
      case assertDefined target of
        Some e \<Rightarrow> (Inl e, s)
      | None \<Rightarrow>
          (let s' = addSub (the target) prop s in
           if truthy prop then (Inr (get_prop obj (the prop)), s') else (Inr obj, s')))"

subsection \<open>The effect body\<close>

text \<open>
  The effect body is the caller's code.  What matters of one invocation is what it does
  with the tracker and the store before its first suspension, and how it ends: it throws,
  it returns a value, or (an \<^verbatim>\<open>async\<close> body) it returns a promise that settles later.
  \<open>Write\<close> is a write to a property the descriptor subscribes to.  A body does not catch
  the exception of a tracker call, and it does not call \<^verbatim>\<open>runWatch\<close> itself: a write only
  marks the descriptor dirty, and the scheduler calls \<^verbatim>\<open>runWatch\<close> in a task of its own.
\<close>

datatype action = Track val "string option" | Write

datatype body_end = Throw error | Return val | ReturnPromise

datatype body = Body (acts: "action list") (ending: body_end)

fun run_acts :: "action list \<Rightarrow> world \<Rightarrow> error option \<times> world" where
  "run_acts [] s = (None, s)"
| "run_acts (Track obj prop # as) s =
     (case track obj prop s of
        (Inl e, s') \<Rightarrow> (Some e, s')
      | (Inr v, s') \<Rightarrow> run_acts as s')"
| "run_acts (Write # as) s = run_acts as (notify s)"

text \<open>
  Modelled from the spec: \<^verbatim>\<open>invokeFn\<close> of \<^verbatim>\<open>../import/qrl-class\<close> is not in the
  sources.  The definition is the call \<^verbatim>\<open>watchFn(track)\<close>, where \<^verbatim>\<open>watchFn\<close> is
  \<^verbatim>\<open>watch.qrl.invokeFn(el, invokationContext, () => subsManager.$clearSub$(watch))\<close>:
  by the spec the descriptor's subscriptions are cleared, then the body is invoked with
  the tracker as its sole argument.  The QRL is taken as resolved, so the body starts
  within the call.
\<close>

definition invoke_body :: "body \<Rightarrow> world \<Rightarrow> (error + val value_or_promise) \<times> world" where
  "invoke_body b s =
     (let s0 = clearSub s;
          s1 = s0\<lparr>log := log s0 @ [EvBody (f (watch s0))]\<rparr>
      in case run_acts (acts b) s1 of
           (Some e, s2) \<Rightarrow> (Inl e, s2)
         | (None, s2) \<Rightarrow>
             (case ending b of
                Throw e \<Rightarrow> (Inl e, s2)
              | Return v \<Rightarrow> (Inr (Sync v), s2)
              | ReturnPromise \<Rightarrow>
                  (case new_promise BodyResult s2 of
                     (bp, s3) \<Rightarrow> (Inr (Async bp), s3\<lparr>bodies := bodies s3 @ [bp]\<rparr>))))"

subsection \<open>runWatch\<close>

text \<open>
  The callback \<^verbatim>\<open>(returnValue) => { ...; resolve(watch) }\<close> of the promise \<open>p\<close>.  The
  test \<^verbatim>\<open>isFunction(returnValue)\<close> is the case \<open>VFun\<close>; \<^verbatim>\<open>noSerialize\<close> returns its
  argument.
\<close>

definition body_callback :: "pid \<Rightarrow> val \<Rightarrow> world \<Rightarrow> world" where
  "body_callback p returnValue s =
     resolve_promise p VWatch
       (case returnValue of
          VFun g \<Rightarrow> s\<lparr>watch := (watch s)\<lparr>destroy := Some g\<rparr>\<rparr>
        | _ \<Rightarrow> s)"

text \<open>
  The callback \<^verbatim>\<open>() => { cleanupWatch(watch); ...; return then(watchFn(track), ...) }\<close>
  of the promise \<open>p\<close>; \<open>q\<close> is only recorded in the log.
\<close>

definition run_callback :: "body \<Rightarrow> pid \<Rightarrow> pid option \<Rightarrow> world \<Rightarrow> error option \<times> world" where
  "run_callback b p q s =
     (case cleanupWatch (s\<lparr>log := log s @ [EvRunStart p q]\<rparr>) of
        (Some e, s1) \<Rightarrow> (Some e, s1)
      | (None, s1) \<Rightarrow>
          (case invoke_body b s1 of
             (Inl e, s2) \<Rightarrow> (Some e, s2)
           | (Inr r, s2) \<Rightarrow> then_fn r (KBody p) (\<lambda>v s. (None, body_callback p v s)) s2))"

text \<open>
  The executor of \<^verbatim>\<open>new Promise((resolve) => { then(watch.running, ...) })\<close>: with no
  promise in \<^verbatim>\<open>watch.running\<close> the callback runs at once, and an exception that escapes
  the executor rejects the promise under construction.
\<close>

definition executor :: "body \<Rightarrow> pid \<Rightarrow> world \<Rightarrow> world" where
  "executor b p s =
     (case then_fn (case running (watch s) of None \<Rightarrow> Sync () | Some q \<Rightarrow> Async q)
             (KRun p) (\<lambda>u. run_callback b p None) s of
        (None, s') \<Rightarrow> s'
      | (Some e, s') \<Rightarrow> reject_promise p e s')"

text \<open>
  \<^verbatim>\<open>runWatch\<close>: the promise returned and the world after the synchronous part.  \<open>b\<close> is
  what the effect body does if this call invokes it.
\<close>

definition runWatch :: "body \<Rightarrow> world \<Rightarrow> pid \<times> world" where
  "runWatch b s =
     (if f (watch s) AND WatchFlagsIsDirty = 0
      then promise_resolve VWatch (s\<lparr>log := log s @ [EvLogDebug]\<rparr>)
      else
        (let s1 = s\<lparr>watch := (watch s)\<lparr>f := f (watch s) AND NOT WatchFlagsIsDirty\<rparr>\<rparr> in
         case new_promise Handle s1 of
           (p, s2) \<Rightarrow>
             (let s3 = executor b p s2
              in (p, s3\<lparr>watch := (watch s3)\<lparr>running := Some p\<rparr>\<rparr>))))"

subsection \<open>Microtasks and the environment\<close>

text \<open>
  One microtask.  A reaction job calls its handler.  An exception that escapes a \<open>KRun\<close>
  handler rejects the promise that \<^verbatim>\<open>.then\<close> returned for it, which the executor has
  dropped: nothing observes it, and the promise of the run stays pending.  The \<open>KInit\<close>
  handler returns the promise of \<^verbatim>\<open>runWatch\<close>, so its \<^verbatim>\<open>.then\<close> promise \<open>d\<close> is
  resolved with a promise: a further microtask subscribes \<open>d\<close> to it.
\<close>

definition run_job :: "body \<Rightarrow> job \<Rightarrow> world \<Rightarrow> world" where
  "run_job b j s =
     (case j of
        React q (KRun p) v \<Rightarrow>
          (case run_callback b p (Some q) s of
             (None, s') \<Rightarrow> s'
           | (Some e, s') \<Rightarrow> s'\<lparr>log := log s' @ [EvUnhandled e]\<rparr>)
      | React q (KBody p) v \<Rightarrow> body_callback p v s
      | React q (KInit d) v \<Rightarrow>
          (case runWatch b s of (r, s') \<Rightarrow> s'\<lparr>queue := queue s' @ [Thenable d r]\<rparr>)
      | React q (KAdopt d) v \<Rightarrow> resolve_promise d v s
      | PassReject d e \<Rightarrow> reject_promise d e s
      | Thenable d r \<Rightarrow> promise_then r (KAdopt d) s)"

definition tick :: "body \<Rightarrow> world \<Rightarrow> world" where
  "tick b s = (case queue s of [] \<Rightarrow> s | j # js \<Rightarrow> run_job b j (s\<lparr>queue := js\<rparr>))"

text \<open>The promise an \<^verbatim>\<open>async\<close> body returned settles: the caller's code decides how.\<close>

datatype outcome = Fulfil val | Reject error

definition settle_body :: "pid \<Rightarrow> outcome \<Rightarrow> world \<Rightarrow> world" where
  "settle_body bp out s =
     (if bp \<in> set (bodies s)
      then (case out of Fulfil v \<Rightarrow> resolve_promise bp v s | Reject e \<Rightarrow> reject_promise bp e s)
      else s)"

subsection \<open>The registrars\<close>

text \<open>
  \<^verbatim>\<open>useRunWatch\<close>: the run trigger is handed to \<^verbatim>\<open>useResumeQrl\<close> or
  \<^verbatim>\<open>useVisibleQrl\<close>, recorded in \<open>hooks\<close>; with no trigger nothing is registered.
\<close>

definition useRunWatch :: "run_opt option \<Rightarrow> world \<Rightarrow> world" where
  "useRunWatch run s =
     (case run of
        Some RunLoad \<Rightarrow> s\<lparr>hooks := hooks s @ [RunLoad]\<rparr>
      | Some RunVisible \<Rightarrow> s\<lparr>hooks := hooks s @ [RunVisible]\<rparr>
      | None \<Rightarrow> s)"

text \<open>
  Modelled from the spec: \<^verbatim>\<open>useSequentialScope\<close>, \<^verbatim>\<open>getContext\<close> and \<^verbatim>\<open>useWaitOn\<close>
  are not in the sources.  By the spec the sequential scope yields the existing value on
  re-entry (\<open>slot\<close>), the element's effect list is appended to (\<open>watches\<close>), and what
  is passed to \<^verbatim>\<open>useWaitOn\<close> is awaited as part of setup (\<open>waitOn\<close>).

  \<^verbatim>\<open>useWatchQrl\<close>: \<open>q\<close>, \<open>e\<close> and \<open>n\<close> are the QRL, the host element and the index of
  the sequential scope; \<open>opts\<close> is \<^verbatim>\<open>opts?.run\<close>.
\<close>

definition useWatchQrl :: "nat \<Rightarrow> nat \<Rightarrow> nat \<Rightarrow> bool \<Rightarrow> run_opt option \<Rightarrow> world \<Rightarrow> world" where
  "useWatchQrl q e n isServer opts s =
     (if slot s then s
      else
        (let w = \<lparr>qrl = q, el = e, f = WatchFlagsIsDirty OR WatchFlagsIsWatch, i = n,
                  destroy = None, running = None\<rparr>;
             s1 = s\<lparr>watch := w, slot := True, watches := watches s @ [w]\<rparr>
         in case promise_resolve VUndefined s1 of
              (p0, s2) \<Rightarrow>
                (case new_promise Derived s2 of
                   (d, s3) \<Rightarrow>
                     (let s4 = promise_then p0 (KInit d) s3;
                          s5 = s4\<lparr>waitOn := waitOn s4 @ [d]\<rparr>
                      in if isServer then useRunWatch opts s5 else s5))))"

text \<open>
  \<^verbatim>\<open>useClientEffectQrl\<close>: \<open>hasObserver\<close> is whether the document carries the
  intersection observer \<^verbatim>\<open>doc['qO']\<close>.
\<close>

definition useClientEffectQrl ::
  "nat \<Rightarrow> nat \<Rightarrow> nat \<Rightarrow> run_opt option \<Rightarrow> bool \<Rightarrow> world \<Rightarrow> world" where
  "useClientEffectQrl q e n opts hasObserver s =
     (if slot s then s
      else
        (let w = \<lparr>qrl = q, el = e, f = WatchFlagsIsEffect, i = n,
                  destroy = None, running = None\<rparr>;
             s1 = s\<lparr>watch := w, slot := True, watches := watches s @ [w]\<rparr>;
             s2 = useRunWatch (Some (case opts of None \<Rightarrow> RunVisible | Some r \<Rightarrow> r)) s1
         in if hasObserver then s2\<lparr>observed := True\<rparr> else s2))"

text \<open>Setup is still waiting while a promise passed to \<^verbatim>\<open>useWaitOn\<close> is pending.\<close>

definition setup_waiting :: "world \<Rightarrow> bool" where
  "setup_waiting s = list_ex (\<lambda>d. pstates s d = Pending) (waitOn s)"

subsection \<open>Executions\<close>

text \<open>
  What can happen to the descriptor of one effect site, one synchronous block at a time:
  a registrar creates it (or it is restored, with flags \<open>fl\<close>, from a serialized
  container: the cleanup slot and the running handle are not serialized); the scheduler
  calls \<^verbatim>\<open>runWatch\<close>; a tracked property is written; the event loop runs a microtask;
  the promise of an \<^verbatim>\<open>async\<close> body settles; the owning element is torn down.  Until the
  descriptor exists there is nothing to run, notify or destroy.
\<close>

datatype input =
    InUseWatchQrl nat nat nat bool "run_opt option"
  | InUseClientEffectQrl nat nat nat "run_opt option" bool
  | InRestore flags
  | InRunWatch body
  | InNotify
  | InTick body
  | InSettle pid outcome
  | InDestroy fn

definition restore :: "flags \<Rightarrow> world \<Rightarrow> world" where
  "restore fl s =
     (if slot s then s
      else s\<lparr>watch := \<lparr>qrl = 0, el = 0, f = fl, i = 0, destroy = None, running = None\<rparr>,
             slot := True\<rparr>)"

fun step :: "input \<Rightarrow> world \<Rightarrow> world" where
  "step (InUseWatchQrl q e n isServer opts) s = useWatchQrl q e n isServer opts s"
| "step (InUseClientEffectQrl q e n opts ob) s = useClientEffectQrl q e n opts ob s"
| "step (InRestore fl) s = restore fl s"
| "step (InRunWatch b) s = (if slot s then snd (runWatch b s) else s)"
| "step InNotify s = (if slot s then notify s else s)"
| "step (InTick b) s = (if slot s then tick b s else s)"
| "step (InSettle bp out) s = (if slot s then settle_body bp out s else s)"
| "step (InDestroy c) s = (if slot s then snd (destroyWatch c s) else s)"

definition run_inputs :: "input list \<Rightarrow> world \<Rightarrow> world" where
  "run_inputs ins s = fold step ins s"

text \<open>The world before the effect site is first evaluated.\<close>

definition blank :: world where
  "blank =
     \<lparr>watch = \<lparr>qrl = 0, el = 0, f = 0, i = 0, destroy = None, running = None\<rparr>,
      subs = [], log = [], pstates = (\<lambda>p. Pending), next_pid = 0, reactions = [],
      queue = [], bodies = [], waitOn = [], slot = False, watches = [], hooks = [],
      observed = False\<rparr>"

text \<open>The body promises still pending: the body executions in flight.\<close>

definition bodies_in_flight :: "world \<Rightarrow> pid list" where
  "bodies_in_flight s = filter (\<lambda>bp. pstates s bp = Pending) (bodies s)"

subsection \<open>What holds of every execution\<close>

text \<open>
  The part of the world that decides which run may start: the reactions, the microtask
  queue, the body promises, the promise states, the serial number and the running handle.
\<close>

definition core ::
  "world \<Rightarrow> (pid \<times> cont) list \<times> job list \<times> pid list \<times> (pid \<Rightarrow> pstate) \<times> nat \<times> pid option \<times> bool"
  where
  "core s = (reactions s, queue s, bodies s, pstates s, next_pid s, running (watch s), slot s)"

fun is_run :: "cont \<Rightarrow> bool" where
  "is_run (KRun p) = True"
| "is_run _ = False"

fun is_bodyk :: "cont \<Rightarrow> bool" where
  "is_bodyk (KBody p) = True"
| "is_bodyk _ = False"

text \<open>
  A job of a run on its way: the run callback about to start, or the body callback about
  to resolve the run's promise.
\<close>

fun live_job :: "job \<Rightarrow> bool" where
  "live_job (React q k v) = (is_run k \<or> is_bodyk k)"
| "live_job _ = False"

definition live :: "world \<Rightarrow> nat" where
  "live s = length (filter live_job (queue s)) + length (bodies_in_flight s)"

text \<open>No run is in progress as far as the running handle tells.\<close>

definition idle :: "world \<Rightarrow> bool" where
  "idle s = (case running (watch s) of None \<Rightarrow> True | Some r \<Rightarrow> pstates s r \<noteq> Pending)"

fun cont_ok :: "nat \<Rightarrow> cont \<Rightarrow> bool" where
  "cont_ok n (KRun p) = (fst p = Handle \<and> snd p < n)"
| "cont_ok n (KBody p) = (fst p = Handle \<and> snd p < n)"
| "cont_ok n (KInit d) = (fst d = Derived \<and> snd d < n)"
| "cont_ok n (KAdopt d) = (fst d = Derived \<and> snd d < n)"

definition reaction_ok :: "nat \<Rightarrow> pid \<times> cont \<Rightarrow> bool" where
  "reaction_ok n x =
     (snd (fst x) < n \<and> cont_ok n (snd x)
      \<and> (is_run (snd x) \<longrightarrow> fst (fst x) = Handle)
      \<and> (is_bodyk (snd x) \<longrightarrow> fst (fst x) = BodyResult))"

fun job_ok :: "world \<Rightarrow> job \<Rightarrow> bool" where
  "job_ok s (React q k v) = (cont_ok (next_pid s) k \<and> pstates s q \<noteq> Pending)"
| "job_ok s (PassReject d e) = (fst d = Derived \<and> snd d < next_pid s)"
| "job_ok s (Thenable d r) = (fst d = Derived \<and> snd d < next_pid s \<and> snd r < next_pid s)"

definition wf :: "world \<Rightarrow> bool" where
  "wf s =
     ((\<forall>x \<in> set (reactions s). reaction_ok (next_pid s) x)
      \<and> (\<forall>j \<in> set (queue s). job_ok s j)
      \<and> (\<forall>bp \<in> set (bodies s). fst bp = BodyResult \<and> snd bp < next_pid s)
      \<and> (\<forall>p. next_pid s \<le> snd p \<longrightarrow> pstates s p = Pending)
      \<and> (\<forall>r. running (watch s) = Some r \<longrightarrow>
             fst r = Handle \<and> snd r < next_pid s \<and> (\<forall>p. (r, KRun p) \<notin> set (reactions s)))
      \<and> distinct (map fst (filter (\<lambda>x. is_run (snd x)) (reactions s)))
      \<and> distinct (map fst (filter (\<lambda>x. is_bodyk (snd x)) (reactions s))))"

definition inv :: "world \<Rightarrow> bool" where
  "inv s = (wf s \<and> live s \<le> 1 \<and> (idle s \<longrightarrow> live s = 0) \<and> (\<not> slot s \<longrightarrow> live s = 0))"

text \<open>
  The world after an \<^verbatim>\<open>async\<close> body has returned its promise, and the world after
  \<^verbatim>\<open>runWatch\<close> has allocated its promise and stored it as the running handle.
\<close>

definition with_body :: "world \<Rightarrow> world" where
  "with_body s = s\<lparr>bodies := bodies s @ [(BodyResult, next_pid s)], next_pid := Suc (next_pid s)\<rparr>"

definition with_handle :: "world \<Rightarrow> world" where
  "with_handle s =
     s\<lparr>next_pid := Suc (next_pid s),
       watch := (watch s)\<lparr>running := Some (Handle, next_pid s)\<rparr>\<rparr>"

text \<open>The core without the running handle.\<close>

definition promises ::
  "world \<Rightarrow> (pid \<times> cont) list \<times> job list \<times> pid list \<times> (pid \<Rightarrow> pstate) \<times> nat \<times> bool" where
  "promises s = (reactions s, queue s, bodies s, pstates s, next_pid s, slot s)"

text \<open>
  Three executions: a first run whose \<^verbatim>\<open>async\<close> body is pending when a write makes the
  descriptor dirty; the same followed by a second \<^verbatim>\<open>runWatch\<close>, the body's completion and
  one microtask; and \<^verbatim>\<open>useWatchQrl\<close> followed by the microtasks of its first run, whose
  \<^verbatim>\<open>async\<close> body has not completed.
\<close>

definition first_run :: "input list" where
  "first_run = [InRestore 4, InRunWatch (Body [] ReturnPromise), InNotify]"

definition two_runs :: "input list" where
  "two_runs =
     [InRestore 4, InRunWatch (Body [] ReturnPromise), InNotify,
      InRunWatch (Body [] (Return VUndefined)),
      InSettle (BodyResult, 1) (Fulfil VUndefined),
      InTick (Body [] (Return VUndefined))]"


subsection \<open>What a run leaves in the log and in the flags\<close>

text \<open>
  Whether the actions of a body reach a write: a tracker call on an object that is not
  trackable throws, which ends the body.
\<close>

fun reaches_write :: "action list \<Rightarrow> bool" where
  "reaches_write [] = False"
| "reaches_write (Track obj prop # as) = (getProxyTarget obj \<noteq> None \<and> reaches_write as)"
| "reaches_write (Write # as) = True"

text \<open>
  The calls \<^verbatim>\<open>cleanupWatch\<close> makes for a given content of the cleanup slot, and the calls
  of one run callback up to the invocation of the body: the start, the cleanup of what the
  slot holds, the clearing of the subscriptions, the body.
\<close>

definition cleanup_events :: "fn option \<Rightarrow> event list" where
  "cleanup_events d =
     (case d of
        None \<Rightarrow> []
      | Some g \<Rightarrow> EvCall g # (case fn_throws g of None \<Rightarrow> [] | Some e \<Rightarrow> [EvLogError e]))"

definition segment :: "pid \<Rightarrow> pid option \<Rightarrow> fn option \<Rightarrow> flags \<Rightarrow> event list" where
  "segment p q d fl = [EvRunStart p q] @ cleanup_events d @ [EvClearSub, EvBody fl]"

text \<open>
  A log read from left to right.  Outside a run any call may be logged but the clearing of
  the subscriptions and the body; a run start must be followed by at most one cleanup call
  (with its error log exactly when the function throws), then the clearing of the
  subscriptions, then the body, with nothing in between.
\<close>

datatype seg_state = Outside | Started | Called fn | Logged | Cleared

fun seg_step :: "seg_state option \<Rightarrow> event \<Rightarrow> seg_state option" where
  "seg_step None e = None"
| "seg_step (Some st) e =
     (case st of
        Outside \<Rightarrow>
          (case e of
             EvRunStart p q \<Rightarrow> Some Started
           | EvClearSub \<Rightarrow> None
           | EvBody fl \<Rightarrow> None
           | _ \<Rightarrow> Some Outside)
      | Started \<Rightarrow>
          (case e of
             EvCall d \<Rightarrow> Some (Called d)
           | EvClearSub \<Rightarrow> Some Cleared
           | _ \<Rightarrow> None)
      | Called d \<Rightarrow>
          (case e of
             EvLogError x \<Rightarrow> (if fn_throws d = Some x then Some Logged else None)
           | EvClearSub \<Rightarrow> (if fn_throws d = None then Some Cleared else None)
           | _ \<Rightarrow> None)
      | Logged \<Rightarrow> (case e of EvClearSub \<Rightarrow> Some Cleared | _ \<Rightarrow> None)
      | Cleared \<Rightarrow> (case e of EvBody fl \<Rightarrow> Some Outside | _ \<Rightarrow> None))"

definition segs_ok :: "event list \<Rightarrow> bool" where
  "segs_ok l = (foldl seg_step (Some Outside) l = Some Outside)"

text \<open>
  How often the run callback of the promise \<open>p\<close> has started; how many run callbacks of
  \<open>p\<close> are still waiting, as a reaction or as a microtask; and whether the run of \<open>p\<close>
  is past its start: its body callback is waiting, or \<open>p\<close> is a fulfilled handle.
\<close>

fun is_start_of :: "pid \<Rightarrow> event \<Rightarrow> bool" where
  "is_start_of p (EvRunStart p' q) = (p' = p)"
| "is_start_of p _ = False"

fun runs_job :: "pid \<Rightarrow> job \<Rightarrow> bool" where
  "runs_job p (React q k v) = (k = KRun p)"
| "runs_job p (PassReject d e) = False"
| "runs_job p (Thenable d r) = False"

fun ends_job :: "pid \<Rightarrow> job \<Rightarrow> bool" where
  "ends_job p (React q k v) = (k = KBody p)"
| "ends_job p (PassReject d e) = False"
| "ends_job p (Thenable d r) = False"

definition starts :: "world \<Rightarrow> pid \<Rightarrow> nat" where
  "starts s p = length (filter (is_start_of p) (log s))"

definition waiting :: "world \<Rightarrow> pid \<Rightarrow> nat" where
  "waiting s p =
     length (filter (\<lambda>x. snd x = KRun p) (reactions s)) + length (filter (runs_job p) (queue s))"

fun fulfilled :: "pstate \<Rightarrow> bool" where
  "fulfilled (Fulfilled v) = True"
| "fulfilled Pending = False"
| "fulfilled (Rejected e) = False"

definition finishing :: "world \<Rightarrow> pid \<Rightarrow> bool" where
  "finishing s p =
     (list_ex (\<lambda>x. snd x = KBody p) (reactions s) \<or> list_ex (ends_job p) (queue s)
      \<or> (fst p = Handle \<and> fulfilled (pstates s p)))"

text \<open>
  Every run callback starts at most once, none has started for a promise not yet
  allocated, and a run past its start has started.
\<close>

definition run_once :: "world \<Rightarrow> bool" where
  "run_once s =
     (\<forall>p. starts s p + waiting s p \<le> 1
          \<and> (next_pid s \<le> snd p \<longrightarrow> starts s p + waiting s p = 0)
          \<and> (finishing s p \<longrightarrow> 1 \<le> starts s p))"

text \<open>
  Three more executions: a descriptor restored dirty; a first run that returns a cleanup
  function, followed by a write and a second \<^verbatim>\<open>runWatch\<close>, whose run callback is then a
  microtask; and the same followed by that microtask.
\<close>

definition restored_dirty :: "input list" where
  "restored_dirty = [InRestore 6]"

definition cleanup_pending :: "input list" where
  "cleanup_pending =
     [InRestore 4, InRunWatch (Body [] (Return (VFun (Fn 7 None)))), InNotify,
      InRunWatch (Body [] (Return VUndefined))]"

definition cleanup_done :: "input list" where
  "cleanup_done = cleanup_pending @ [InTick (Body [] (Return VUndefined))]"

text \<open>A world whose descriptor exists, with given flags, cleanup slot and running handle.\<close>

definition demo :: "flags \<Rightarrow> fn option \<Rightarrow> pid option \<Rightarrow> world" where
  "demo fl d r =
     blank\<lparr>watch := (watch blank)\<lparr>f := fl, destroy := d, running := r\<rparr>, slot := True\<rparr>"

section \<open>Properties\<close>

subsection \<open>What each operation leaves alone\<close>

text \<open>The two uses of \<^verbatim>\<open>then\<close>, case by case.\<close>

lemma run_callback_alt:
  "run_callback b p q s =
     (case cleanupWatch (s\<lparr>log := log s @ [EvRunStart p q]\<rparr>) of
        (Some e, s1) \<Rightarrow> (Some e, s1)
      | (None, s1) \<Rightarrow>
          (case invoke_body b s1 of
             (Inl e, s2) \<Rightarrow> (Some e, s2)
           | (Inr (Sync v), s2) \<Rightarrow> (None, body_callback p v s2)
           | (Inr (Async bp), s2) \<Rightarrow> (None, promise_then bp (KBody p) s2)))"
  by (simp add: run_callback_def then_fn_def
           split: prod.splits option.splits sum.splits value_or_promise.splits)

lemma executor_alt:
  "executor b p s =
     (case running (watch s) of
        None \<Rightarrow>
          (case run_callback b p None s of
             (None, s') \<Rightarrow> s'
           | (Some e, s') \<Rightarrow> reject_promise p e s')
      | Some q \<Rightarrow> promise_then q (KRun p) s)"
  by (simp add: executor_def then_fn_def split: option.splits)

lemma run_acts_log: "log (snd (run_acts as s)) = log s"
  by (induction as s rule: run_acts.induct)
     (auto simp: track_def addSub_def notify_def Let_def split: option.splits prod.splits sum.splits)

lemma run_acts_destroy: "destroy (watch (snd (run_acts as s))) = destroy (watch s)"
  by (induction as s rule: run_acts.induct)
     (auto simp: track_def addSub_def notify_def Let_def split: option.splits prod.splits sum.splits)

lemma run_acts_dirty:
  "f (watch s) AND WatchFlagsIsDirty \<noteq> 0 \<Longrightarrow> f (watch (snd (run_acts as s))) AND WatchFlagsIsDirty \<noteq> 0"
proof (induction as s rule: run_acts.induct)
  case (3 as s)
  have "(f (watch s) OR WatchFlagsIsDirty) AND WatchFlagsIsDirty = WatchFlagsIsDirty"
    by (simp add: bit_eq_iff bit_and_iff bit_or_iff)
  moreover have "WatchFlagsIsDirty \<noteq> 0" by (simp add: WatchFlagsIsDirty_def)
  ultimately show ?case using 3 by (simp add: notify_def)
qed (auto simp: track_def addSub_def Let_def split: option.splits prod.splits sum.splits)

lemma resolve_log: "log (resolve_promise p v s) = log s"
  by (simp add: resolve_promise_def)
lemma resolve_watch: "watch (resolve_promise p v s) = watch s"
  by (simp add: resolve_promise_def)
lemma reject_log: "log (reject_promise p v s) = log s"
  by (simp add: reject_promise_def)
lemma reject_watch: "watch (reject_promise p v s) = watch s"
  by (simp add: reject_promise_def)
lemma then_log: "log (promise_then p k s) = log s"
  by (simp add: promise_then_def split: pstate.splits)
lemma then_watch: "watch (promise_then p k s) = watch s"
  by (simp add: promise_then_def split: pstate.splits)

lemma invoke_body_log: "log (snd (invoke_body b s)) = log s @ [EvClearSub, EvBody (f (watch s))]"
  using run_acts_log[of "acts b" "clearSub s\<lparr>log := log (clearSub s) @ [EvBody (f (watch (clearSub s)))]\<rparr>"]
  by (auto simp: invoke_body_def Let_def new_promise_def clearSub_def split: prod.splits option.splits body_end.splits)

lemma body_callback_log: "log (body_callback p v s) = log s"
  by (simp add: body_callback_def resolve_log split: val.splits)

lemma cleanupWatch_Some:
  "destroy (watch s) = Some d \<Longrightarrow>
   cleanupWatch s =
     (None, s\<lparr>watch := (watch s)\<lparr>destroy := None\<rparr>,
              log := log s @ EvCall d # (case fn_throws d of None \<Rightarrow> [] | Some e \<Rightarrow> [EvLogError e])\<rparr>)"
  by (cases "fn_throws d") (simp_all add: cleanupWatch_def call_fn_def logError_def)

lemma cleanupWatch_None: "destroy (watch s) = None \<Longrightarrow> cleanupWatch s = (None, s)"
  by (simp add: cleanupWatch_def)

lemma run_callback_log:
  "log (snd (run_callback b p q s)) =
     log (snd (cleanupWatch (s\<lparr>log := log s @ [EvRunStart p q]\<rparr>))) @ [EvClearSub, EvBody (f (watch s))]"
proof (cases "destroy (watch s)")
  case None
  show ?thesis
    using invoke_body_log[of b "s\<lparr>log := log s @ [EvRunStart p q]\<rparr>"]
    by (auto simp: run_callback_alt cleanupWatch_None None body_callback_log then_log
             split: prod.splits sum.splits value_or_promise.splits)
next
  case (Some d)
  let ?s1 = "s\<lparr>log := log s @ [EvRunStart p q]\<rparr>
       \<lparr>watch := watch (s\<lparr>log := log s @ [EvRunStart p q]\<rparr>)\<lparr>destroy := None\<rparr>,
          log := log (s\<lparr>log := log s @ [EvRunStart p q]\<rparr>) @
                 EvCall d # (case fn_throws d of None \<Rightarrow> [] | Some e \<Rightarrow> [EvLogError e])\<rparr>"
  show ?thesis
    using invoke_body_log[of b ?s1]
    by (auto simp: run_callback_alt cleanupWatch_Some Some body_callback_log then_log
             split: prod.splits sum.splits value_or_promise.splits)
qed

lemma and_not_self: "(x AND NOT m) AND m = (0::flags)"
  by (simp add: bit_eq_iff bit_and_iff bit_not_iff)

lemma cleanupWatch_f: "f (watch (snd (cleanupWatch s))) = f (watch s)"
  by (cases "destroy (watch s)") (simp_all add: cleanupWatch_Some cleanupWatch_None)

lemma invoke_body_dirty:
  "f (watch s) AND WatchFlagsIsDirty \<noteq> 0 \<Longrightarrow>
   f (watch (snd (invoke_body b s))) AND WatchFlagsIsDirty \<noteq> 0"
  using run_acts_dirty[of "clearSub s\<lparr>log := log (clearSub s) @ [EvBody (f (watch (clearSub s)))]\<rparr>" "acts b"]
  by (auto simp: invoke_body_def Let_def new_promise_def clearSub_def
           split: prod.splits option.splits body_end.splits)

lemma body_callback_f: "f (watch (body_callback p v s)) = f (watch s)"
  by (simp add: body_callback_def resolve_watch split: val.splits)

lemma run_callback_dirty:
  assumes "f (watch s) AND WatchFlagsIsDirty \<noteq> 0"
  shows "f (watch (snd (run_callback b p q s))) AND WatchFlagsIsDirty \<noteq> 0"
proof -
  let ?s0 = "s\<lparr>log := log s @ [EvRunStart p q]\<rparr>"
  obtain s1 where c: "cleanupWatch ?s0 = (None, s1)"
    by (cases "destroy (watch s)") (simp_all add: cleanupWatch_Some cleanupWatch_None)
  have "f (watch s1) = f (watch s)"
    using cleanupWatch_f[of ?s0] c by simp
  then have "f (watch (snd (invoke_body b s1))) AND WatchFlagsIsDirty \<noteq> 0"
    using assms invoke_body_dirty by simp
  then show ?thesis
    using c by (auto simp: run_callback_alt body_callback_f then_watch
                     split: prod.splits sum.splits value_or_promise.splits)
qed

lemma notify_dirty: "f (watch (notify s)) AND WatchFlagsIsDirty \<noteq> 0"
proof -
  have "(f (watch s) OR WatchFlagsIsDirty) AND WatchFlagsIsDirty = WatchFlagsIsDirty"
    by (simp add: bit_eq_iff bit_and_iff bit_or_iff)
  moreover have "WatchFlagsIsDirty \<noteq> 0" by (simp add: WatchFlagsIsDirty_def)
  ultimately show ?thesis by (simp add: notify_def)
qed

lemma invoke_body_destroy: "destroy (watch (snd (invoke_body b s))) = destroy (watch s)"
  using run_acts_destroy[of "acts b"
      "clearSub s\<lparr>log := log (clearSub s) @ [EvBody (f (watch (clearSub s)))]\<rparr>"]
  by (auto simp: invoke_body_def Let_def new_promise_def clearSub_def
           split: prod.splits option.splits body_end.splits)

lemma invoke_body_Sync:
  "invoke_body b s = (Inr (Sync v), s') \<Longrightarrow> ending b = Return v"
  by (auto simp: invoke_body_def Let_def new_promise_def
           split: prod.splits option.splits body_end.splits)

subsection \<open>The no-op fast path\<close>

text \<open>
  Claim C3.  When IS_DIRTY is unset, \<^verbatim>\<open>runWatch\<close> returns a promise already resolved
  with the descriptor, and it leaves the descriptor (flags, cleanup slot, running handle)
  and the subscriptions as they were; the only call it makes is the debug log, so neither
  the cleanup nor the effect body is invoked, and no microtask or reaction is added.
\<close>

theorem runWatch_not_dirty_noop:
  assumes "f (watch s) AND WatchFlagsIsDirty = 0"
  shows "pstates (snd (runWatch b s)) (fst (runWatch b s)) = Fulfilled VWatch
       \<and> watch (snd (runWatch b s)) = watch s
       \<and> subs (snd (runWatch b s)) = subs s
       \<and> log (snd (runWatch b s)) = log s @ [EvLogDebug]
       \<and> reactions (snd (runWatch b s)) = reactions s
       \<and> queue (snd (runWatch b s)) = queue s
       \<and> bodies (snd (runWatch b s)) = bodies s"
  using assms by (simp add: runWatch_def promise_resolve_def)

theorem runWatch_not_dirty_noop_witness:
  "f (watch (demo 2 (Some (Fn 1 None)) None)) AND WatchFlagsIsDirty = 0
   \<and> watch (snd (runWatch (Body [] (Return VUndefined)) (demo 2 (Some (Fn 1 None)) None)))
       = watch (demo 2 (Some (Fn 1 None)) None)
   \<and> log (snd (runWatch (Body [] (Return VUndefined)) (demo 2 (Some (Fn 1 None)) None))) = [EvLogDebug]"
proof -
  have h: "f (watch (demo 2 (Some (Fn 1 None)) None)) AND WatchFlagsIsDirty = 0"
    by (simp add: demo_def blank_def WatchFlagsIsDirty_def)
  show ?thesis
    using h runWatch_not_dirty_noop[OF h, of "Body [] (Return VUndefined)"]
    by (simp add: demo_def blank_def)
qed

subsection \<open>Clearing the dirty flag\<close>

lemma run_job_KRun_dirty:
  "f (watch s) AND WatchFlagsIsDirty \<noteq> 0 \<Longrightarrow>
   f (watch (run_job b (React q (KRun p) v) s)) AND WatchFlagsIsDirty \<noteq> 0"
  using run_callback_dirty[of s b p "Some q"]
  by (cases "run_callback b p (Some q) s") (auto simp: run_job_def split: option.splits)

lemma run_job_KBody_dirty:
  "f (watch s) AND WatchFlagsIsDirty \<noteq> 0 \<Longrightarrow>
   f (watch (run_job b (React q (KBody p) v) s)) AND WatchFlagsIsDirty \<noteq> 0"
  by (simp add: run_job_def body_callback_f)

lemma runWatch_suspended:
  assumes "f (watch s) AND WatchFlagsIsDirty \<noteq> 0" and "running (watch s) = Some r"
  shows "f (watch (snd (runWatch b s))) = f (watch s) AND NOT WatchFlagsIsDirty"
    and "log (snd (runWatch b s)) = log s"
    and "destroy (watch (snd (runWatch b s))) = destroy (watch s)"
    and "subs (snd (runWatch b s)) = subs s"
  using assms
  by (simp_all add: runWatch_def Let_def new_promise_def executor_alt then_log then_watch
        promise_then_def split: pstate.splits)

lemma runWatch_immediate:
  assumes "f (watch s) AND WatchFlagsIsDirty \<noteq> 0" and "running (watch s) = None"
  shows "last (log (snd (runWatch b s))) = EvBody (f (watch s) AND NOT WatchFlagsIsDirty)"
proof -
  let ?s2 = "s\<lparr>watch := (watch s)\<lparr>f := f (watch s) AND NOT WatchFlagsIsDirty\<rparr>,
               next_pid := Suc (next_pid s)\<rparr>"
  let ?p = "(Handle, next_pid s)"
  have l: "last (log (snd (run_callback b ?p None ?s2))) = EvBody (f (watch s) AND NOT WatchFlagsIsDirty)"
    by (simp add: run_callback_log)
  have "log (executor b ?p ?s2) = log (snd (run_callback b ?p None ?s2))"
    using assms(2)
    by (cases "run_callback b ?p None ?s2") (auto simp: executor_alt reject_log split: option.splits)
  then show ?thesis
    using assms l by (simp add: runWatch_def Let_def new_promise_def)
qed

subsection \<open>Cleanup before the body\<close>

lemma run_callback_destroy:
  "destroy (watch (snd (run_callback b p q s))) = Some g \<Longrightarrow> ending b = Return (VFun g)"
proof -
  assume a: "destroy (watch (snd (run_callback b p q s))) = Some g"
  let ?s0 = "s\<lparr>log := log s @ [EvRunStart p q]\<rparr>"
  obtain s1 where c: "cleanupWatch ?s0 = (None, s1)" and d1: "destroy (watch s1) = None"
    by (cases "destroy (watch s)") (simp_all add: cleanupWatch_Some cleanupWatch_None)
  obtain r s2 where ib: "invoke_body b s1 = (r, s2)" by (cases "invoke_body b s1")
  have d2: "destroy (watch s2) = None"
    using invoke_body_destroy[of b s1] ib d1 by simp
  show ?thesis
  proof (cases r)
    case (Inl e)
    then show ?thesis using a c ib d2 by (simp add: run_callback_alt)
  next
    case (Inr br)
    show ?thesis
    proof (cases br)
      case (Sync v)
      have "ending b = Return v" using invoke_body_Sync ib Inr Sync by simp
      moreover have "v = VFun g"
        using a c ib d2 Inr Sync
        by (cases v) (simp_all add: run_callback_alt body_callback_def resolve_watch)
      ultimately show ?thesis by simp
    next
      case (Async bp)
      then show ?thesis using a c ib d2 Inr by (simp add: run_callback_alt then_watch)
    qed
  qed
qed

subsection \<open>Exceptions of cleanup and teardown callbacks\<close>

lemma run_callback_fst:
  "fst (run_callback b p q s) =
     (case fst (invoke_body b (snd (cleanupWatch (s\<lparr>log := log s @ [EvRunStart p q]\<rparr>)))) of
        Inl x \<Rightarrow> Some x | Inr r \<Rightarrow> None)"
  by (cases "destroy (watch s)")
     (auto simp: run_callback_alt cleanupWatch_Some cleanupWatch_None
           split: prod.splits sum.splits value_or_promise.splits)
text \<open>
  Claim C8.  When the cleanup function in the slot throws, \<^verbatim>\<open>cleanupWatch\<close> logs the
  exception and returns normally: no exception escapes it.  The run callback goes on to
  clear the subscriptions and invoke the body, and the only exception that can escape the
  run callback is the body's own.
\<close>

theorem cleanupWatch_catches_throw:
  assumes "destroy (watch s) = Some d" and "fn_throws d = Some e"
  shows "cleanupWatch s =
           (None, s\<lparr>watch := (watch s)\<lparr>destroy := None\<rparr>, log := log s @ [EvCall d, EvLogError e]\<rparr>)
       \<and> log (snd (run_callback b p q s)) =
           log s @ [EvRunStart p q, EvCall d, EvLogError e, EvClearSub, EvBody (f (watch s))]
       \<and> fst (run_callback b p q s) =
           (case fst (invoke_body b
                   (s\<lparr>watch := (watch s)\<lparr>destroy := None\<rparr>,
                      log := log s @ [EvRunStart p q, EvCall d, EvLogError e]\<rparr>)) of
              Inl x \<Rightarrow> Some x | Inr r \<Rightarrow> None)"
  using assms
  by (simp add: run_callback_log run_callback_fst cleanupWatch_Some)

theorem cleanupWatch_catches_throw_witness:
  "destroy (watch (demo 0 (Some (Fn 1 (Some (Thrown 9)))) None)) = Some (Fn 1 (Some (Thrown 9)))
   \<and> fn_throws (Fn 1 (Some (Thrown 9))) = Some (Thrown 9)
   \<and> fst (cleanupWatch (demo 0 (Some (Fn 1 (Some (Thrown 9)))) None)) = None
   \<and> log (snd (run_callback (Body [] (Return VUndefined)) (Handle, 0) None
                 (demo 0 (Some (Fn 1 (Some (Thrown 9)))) None)))
      = [EvRunStart (Handle, 0) None, EvCall (Fn 1 (Some (Thrown 9))), EvLogError (Thrown 9),
         EvClearSub, EvBody 0]
   \<and> fst (run_callback (Body [] (Return VUndefined)) (Handle, 0) None
                 (demo 0 (Some (Fn 1 (Some (Thrown 9)))) None)) = None"
proof -
  have h1: "destroy (watch (demo 0 (Some (Fn 1 (Some (Thrown 9)))) None)) = Some (Fn 1 (Some (Thrown 9)))"
    by (simp add: demo_def blank_def)
  have h2: "fn_throws (Fn 1 (Some (Thrown 9))) = Some (Thrown 9)" by simp
  show ?thesis
    using h1 h2 cleanupWatch_catches_throw[OF h1 h2, of "Body [] (Return VUndefined)" "(Handle, 0)" None]
    by (simp add: demo_def blank_def invoke_body_def clearSub_def)
qed
lemma cleanupWatch_fst: "fst (cleanupWatch s) = None"
  by (cases "destroy (watch s)") (simp_all add: cleanupWatch_Some cleanupWatch_None)
text \<open>
  Claim C9.  With IS_CLEANUP set, \<^verbatim>\<open>destroyWatch\<close> clears the flag and calls the
  registered function directly.  What the call throws is what \<^verbatim>\<open>destroyWatch\<close> throws:
  nothing is caught and nothing is logged, unlike \<^verbatim>\<open>cleanupWatch\<close>, from which no
  exception escapes.
\<close>

theorem destroyWatch_cleanup_flag_propagates:
  assumes "f (watch s) AND WatchFlagsIsCleanup \<noteq> 0"
  shows "destroyWatch c s =
           (fn_throws c,
            s\<lparr>watch := (watch s)\<lparr>f := f (watch s) AND NOT WatchFlagsIsCleanup\<rparr>,
               log := log s @ [EvQrlCall c]\<rparr>)
       \<and> f (watch (snd (destroyWatch c s))) AND WatchFlagsIsCleanup = 0
       \<and> fst (destroyWatch c s) = fn_throws c
       \<and> fst (cleanupWatch s) = None"
  using assms
  by (simp add: destroyWatch_def Let_def and_not_self cleanupWatch_fst)

theorem destroyWatch_cleanup_flag_propagates_witness:
  "f (watch (demo 8 None None)) AND WatchFlagsIsCleanup \<noteq> 0
   \<and> fst (destroyWatch (Fn 3 (Some (Thrown 5))) (demo 8 None None)) = Some (Thrown 5)
   \<and> f (watch (snd (destroyWatch (Fn 3 (Some (Thrown 5))) (demo 8 None None)))) = 0
   \<and> log (snd (destroyWatch (Fn 3 (Some (Thrown 5))) (demo 8 None None)))
       = [EvQrlCall (Fn 3 (Some (Thrown 5)))]"
proof -
  have h: "f (watch (demo 8 None None)) AND WatchFlagsIsCleanup \<noteq> 0"
    by (simp add: demo_def blank_def WatchFlagsIsCleanup_def)
  show ?thesis
    using h destroyWatch_cleanup_flag_propagates[OF h, of "Fn 3 (Some (Thrown 5))"]
    by (simp add: demo_def blank_def WatchFlagsIsCleanup_def)
qed
text \<open>
  Claim C10.  After \<^verbatim>\<open>cleanupWatch\<close> the cleanup slot is empty, whether the cleanup
  function threw or not, because the slot is emptied before the function is called (the
  call happens in the world whose slot is already empty).  A second \<^verbatim>\<open>cleanupWatch\<close>
  right after the first calls nothing and changes nothing.
\<close>

theorem cleanupWatch_idempotent:
  "destroy (watch (snd (cleanupWatch s))) = None
   \<and> cleanupWatch (snd (cleanupWatch s)) = (None, snd (cleanupWatch s))
   \<and> (case destroy (watch s) of
         None \<Rightarrow> cleanupWatch s = (None, s)
       | Some d \<Rightarrow>
           cleanupWatch s =
             (None, (case fn_throws d of None \<Rightarrow> id | Some e \<Rightarrow> logError e)
                      (snd (call_fn d (s\<lparr>watch := (watch s)\<lparr>destroy := None\<rparr>\<rparr>)))))"
  by (cases "destroy (watch s)"; cases "fn_throws (the (destroy (watch s)))")
     (simp_all add: cleanupWatch_def call_fn_def logError_def)

theorem cleanupWatch_idempotent_witness:
  "destroy (watch (snd (cleanupWatch (demo 0 (Some (Fn 1 (Some (Thrown 9)))) None)))) = None
   \<and> log (snd (cleanupWatch (snd (cleanupWatch (demo 0 (Some (Fn 1 (Some (Thrown 9)))) None)))))
       = [EvCall (Fn 1 (Some (Thrown 9))), EvLogError (Thrown 9)]"
  using cleanupWatch_idempotent[of "demo 0 (Some (Fn 1 (Some (Thrown 9)))) None"]
  by (simp add: demo_def blank_def cleanupWatch_def call_fn_def logError_def)
subsection \<open>The Tracker\<close>

text \<open>
  On a trackable object the tracker registers a subscription with the property argument
  as passed.  Without a property it returns the object; with a non-empty property name it
  returns the value of that property.
\<close>

lemma track_whole_object:
  "getProxyTarget obj = Some t \<Longrightarrow> track obj None s = (Inr obj, addSub t None s)"
  by (simp add: track_def assertDefined_def)

lemma track_property:
  "getProxyTarget obj = Some t \<Longrightarrow> k \<noteq> [] \<Longrightarrow>
   track obj (Some k) s = (Inr (get_prop obj k), addSub t (Some k) s)"
  by (simp add: track_def assertDefined_def)
text \<open>
  Claim C5.  The claim has the tracker return the property's current value whenever a
  property name is passed.  The test \<^verbatim>\<open>if (prop)\<close> is a truthiness test, so for the
  empty property name the tracker returns the object itself, although the object has a
  property of that name with the value 5.
\<close>

theorem track_empty_property_name:
  "track (VObject 1 (Some 10) [([], VNum 5)]) (Some []) s
     = (Inr (VObject 1 (Some 10) [([], VNum 5)]), addSub 10 (Some []) s)
   \<and> get_prop (VObject 1 (Some 10) [([], VNum 5)]) [] = VNum 5"
  by (simp add: track_def assertDefined_def)


subsection \<open>One run at a time\<close>

text \<open>
  The invariant \<open>inv\<close> holds of every execution.  It bounds by one the jobs of a run on
  their way plus the body promises still pending, and it keeps that count at zero while
  the running handle is settled or absent.  The lemmas follow the operations: the promise
  primitives first, then the callbacks, \<^verbatim>\<open>runWatch\<close>, the microtask step and the
  registrars.
\<close>

lemma distinct_filter_le1:
  "distinct (map fst (filter P xs)) \<Longrightarrow> length (filter (\<lambda>x. fst x = p \<and> P x) xs) \<le> 1"
proof (induction xs)
  case Nil
  then show ?case by simp
next
  case (Cons a xs)
  show ?case
  proof (cases "fst a = p \<and> P a")
    case True
    then have "fst a \<notin> fst ` set (filter P xs)" using Cons.prems by simp
    then have "filter (\<lambda>x. fst x = p \<and> P x) xs = []"
      using True by (auto simp: filter_empty_conv image_iff)
    then show ?thesis using True by simp
  next
    case False
    have "distinct (map fst (filter P xs))" using Cons.prems by (simp split: if_splits)
    then show ?thesis using False Cons.IH by auto
  qed
qed

lemma len_live_fulfil:
  "length (filter live_job (fulfil_jobs p v rs)) =
     length (filter (\<lambda>x. fst x = p \<and> is_run (snd x)) rs)
   + length (filter (\<lambda>x. fst x = p \<and> is_bodyk (snd x)) rs)"
proof (induction rs)
  case Nil
  then show ?case by (simp add: fulfil_jobs_def)
next
  case (Cons a rs)
  obtain q k where a: "a = (q, k)" by (cases a)
  show ?case using Cons by (cases k) (auto simp: fulfil_jobs_def a)
qed

lemma live_reject_jobs: "filter live_job (reject_jobs p e rs) = []"
proof (induction rs)
  case Nil
  then show ?case by (simp add: reject_jobs_def)
next
  case (Cons a rs)
  obtain q k where a: "a = (q, k)" by (cases a)
  show ?case using Cons by (cases k) (auto simp: reject_jobs_def a)
qed

lemma no_body_reaction_on:
  assumes "wf s" and "fst p \<noteq> BodyResult"
  shows "filter (\<lambda>x. fst x = p \<and> is_bodyk (snd x)) (reactions s) = []"
  using assms by (auto simp: wf_def filter_empty_conv reaction_ok_def)

lemma no_run_reaction_on:
  assumes "wf s" and "fst p \<noteq> Handle"
  shows "filter (\<lambda>x. fst x = p \<and> is_run (snd x)) (reactions s) = []"
  using assms by (auto simp: wf_def filter_empty_conv reaction_ok_def)

lemma run_reactions_le1:
  assumes "wf s"
  shows "length (filter (\<lambda>x. fst x = p \<and> is_run (snd x)) (reactions s)) \<le> 1"
  using assms distinct_filter_le1[of "\<lambda>x. is_run (snd x)" "reactions s" p] by (simp add: wf_def)

lemma body_reactions_le1:
  assumes "wf s"
  shows "length (filter (\<lambda>x. fst x = p \<and> is_bodyk (snd x)) (reactions s)) \<le> 1"
  using assms distinct_filter_le1[of "\<lambda>x. is_bodyk (snd x)" "reactions s" p] by (simp add: wf_def)

lemma no_run_reaction_filter:
  "(\<forall>p'. (p, KRun p') \<notin> set rs) \<Longrightarrow> filter (\<lambda>x. fst x = p \<and> is_run (snd x)) rs = []"
proof -
  assume a: "\<forall>p'. (p, KRun p') \<notin> set rs"
  have "\<And>x. x \<in> set rs \<Longrightarrow> \<not> (fst x = p \<and> is_run (snd x))"
  proof -
    fix x assume x: "x \<in> set rs"
    obtain q k where xk: "x = (q, k)" by (cases x)
    show "\<not> (fst x = p \<and> is_run (snd x))"
      using a x xk by (cases k) auto
  qed
  then show ?thesis by (simp add: filter_empty_conv)
qed

lemma cont_ok_mono: "cont_ok n k \<Longrightarrow> n \<le> m \<Longrightarrow> cont_ok m k"
  by (cases k) auto

lemma reaction_ok_mono: "reaction_ok n x \<Longrightarrow> n \<le> m \<Longrightarrow> reaction_ok m x"
  by (auto simp: reaction_ok_def intro: cont_ok_mono)

lemma job_ok_mono:
  assumes "job_ok s j" and "next_pid s \<le> next_pid s'"
    and "\<And>q. pstates s q \<noteq> Pending \<Longrightarrow> pstates s' q \<noteq> Pending"
  shows "job_ok s' j"
  using assms by (cases j) (auto intro: cont_ok_mono)

lemma distinct_fst_filter_filter:
  "distinct (map fst (filter P xs)) \<Longrightarrow> distinct (map fst (filter P (filter Q xs)))"
proof -
  assume "distinct (map fst (filter P xs))"
  then have "distinct (map fst (filter Q (filter P xs)))" by (rule distinct_map_filter)
  moreover have "filter Q (filter P xs) = filter P (filter Q xs)" by (auto intro: filter_cong)
  ultimately show ?thesis by simp
qed

lemma distinct_fst_filter_conj:
  "distinct (map fst (filter P xs)) \<Longrightarrow> distinct (map fst (filter (\<lambda>x. Q x \<and> P x) xs))"
proof -
  assume "distinct (map fst (filter P xs))"
  then have "distinct (map fst (filter Q (filter P xs)))" by (rule distinct_map_filter)
  moreover have "filter Q (filter P xs) = filter (\<lambda>x. Q x \<and> P x) xs" by (auto intro: filter_cong)
  ultimately show ?thesis by simp
qed

lemma wf_resolve:
  assumes w: "wf s" and b: "snd p < next_pid s"
  shows "wf (resolve_promise p v s)"
proof (cases "pstates s p = Pending")
  case False
  then show ?thesis using w by (simp add: resolve_promise_def)
next
  case True
  define s' where "s' = resolve_promise p v s"
  have r: "reactions s' = filter (\<lambda>(q, k). q \<noteq> p) (reactions s)"
    and q: "queue s' = queue s @ fulfil_jobs p v (reactions s)"
    and ps: "pstates s' = (pstates s)(p := Fulfilled v)"
    and n: "next_pid s' = next_pid s" and bo: "bodies s' = bodies s"
    and wa: "watch s' = watch s"
    using True by (simp_all add: s'_def resolve_promise_def)
  have 1: "\<forall>x \<in> set (reactions s'). reaction_ok (next_pid s') x"
    using w by (auto simp: wf_def r n)
  have old: "\<And>j. j \<in> set (queue s) \<Longrightarrow> job_ok s' j"
  proof -
    fix j assume "j \<in> set (queue s)"
    then have "job_ok s j" using w by (simp add: wf_def)
    then show "job_ok s' j" by (rule job_ok_mono) (auto simp: n ps)
  qed
  have new: "\<And>j. j \<in> set (fulfil_jobs p v (reactions s)) \<Longrightarrow> job_ok s' j"
    using w by (auto simp: fulfil_jobs_def wf_def reaction_ok_def n ps)
  have 2: "\<forall>j \<in> set (queue s'). job_ok s' j"
    using old new by (auto simp: q)
  have 3: "\<forall>bp \<in> set (bodies s'). fst bp = BodyResult \<and> snd bp < next_pid s'"
    using w by (simp add: wf_def bo n)
  have 4: "\<forall>p'. next_pid s' \<le> snd p' \<longrightarrow> pstates s' p' = Pending"
    using w b by (auto simp: wf_def n ps)
  have 5: "\<forall>r. running (watch s') = Some r \<longrightarrow>
             fst r = Handle \<and> snd r < next_pid s' \<and> (\<forall>p'. (r, KRun p') \<notin> set (reactions s'))"
    using w by (auto simp: wf_def wa n r)
  have 6: "distinct (map fst (filter (\<lambda>x. is_run (snd x)) (reactions s')))"
    using w by (simp add: wf_def r distinct_fst_filter_conj)
  have 7: "distinct (map fst (filter (\<lambda>x. is_bodyk (snd x)) (reactions s')))"
    using w by (simp add: wf_def r distinct_fst_filter_conj)
  have "wf s'" unfolding wf_def using 1 2 3 4 5 6 7 by blast
  then show ?thesis by (simp add: s'_def)
qed

lemma wf_reject:
  assumes w: "wf s" and b: "snd p < next_pid s"
  shows "wf (reject_promise p e s)"
proof (cases "pstates s p = Pending")
  case False
  then show ?thesis using w by (simp add: reject_promise_def)
next
  case True
  define s' where "s' = reject_promise p e s"
  have r: "reactions s' = filter (\<lambda>(q, k). q \<noteq> p) (reactions s)"
    and q: "queue s' = queue s @ reject_jobs p e (reactions s)"
    and ps: "pstates s' = (pstates s)(p := Rejected e)"
    and n: "next_pid s' = next_pid s" and bo: "bodies s' = bodies s"
    and wa: "watch s' = watch s"
    using True by (simp_all add: s'_def reject_promise_def)
  have 1: "\<forall>x \<in> set (reactions s'). reaction_ok (next_pid s') x"
    using w by (auto simp: wf_def r n)
  have old: "\<And>j. j \<in> set (queue s) \<Longrightarrow> job_ok s' j"
  proof -
    fix j assume "j \<in> set (queue s)"
    then have "job_ok s j" using w by (simp add: wf_def)
    then show "job_ok s' j" by (rule job_ok_mono) (auto simp: n ps)
  qed
  have new: "\<And>j. j \<in> set (reject_jobs p e (reactions s)) \<Longrightarrow> job_ok s' j"
  proof -
    fix j assume "j \<in> set (reject_jobs p e (reactions s))"
    then obtain q k where qk: "(q, k) \<in> set (reactions s)" and j: "j \<in> set (reject_job e k)"
      by (auto simp: reject_jobs_def)
    have "cont_ok (next_pid s) k" using w qk by (auto simp: wf_def reaction_ok_def)
    then show "job_ok s' j" using j by (cases k) (auto simp: n)
  qed
  have 2: "\<forall>j \<in> set (queue s'). job_ok s' j"
    using old new by (auto simp: q)
  have 3: "\<forall>bp \<in> set (bodies s'). fst bp = BodyResult \<and> snd bp < next_pid s'"
    using w by (simp add: wf_def bo n)
  have 4: "\<forall>p'. next_pid s' \<le> snd p' \<longrightarrow> pstates s' p' = Pending"
    using w b by (auto simp: wf_def n ps)
  have 5: "\<forall>r. running (watch s') = Some r \<longrightarrow>
             fst r = Handle \<and> snd r < next_pid s' \<and> (\<forall>p'. (r, KRun p') \<notin> set (reactions s'))"
    using w by (auto simp: wf_def wa n r)
  have 6: "distinct (map fst (filter (\<lambda>x. is_run (snd x)) (reactions s')))"
    using w by (simp add: wf_def r distinct_fst_filter_conj)
  have 7: "distinct (map fst (filter (\<lambda>x. is_bodyk (snd x)) (reactions s')))"
    using w by (simp add: wf_def r distinct_fst_filter_conj)
  have "wf s'" unfolding wf_def using 1 2 3 4 5 6 7 by blast
  then show ?thesis by (simp add: s'_def)
qed

lemma bif_settle_other:
  assumes "wf s" and "fst p \<noteq> BodyResult" and "pstates s' = (pstates s)(p := x)"
    and "bodies s' = bodies s"
  shows "bodies_in_flight s' = bodies_in_flight s"
proof -
  have ne: "\<And>bp. bp \<in> set (bodies s) \<Longrightarrow> bp \<noteq> p"
    using assms(1,2) by (auto simp: wf_def)
  have "filter (\<lambda>bp. pstates s' bp = Pending) (bodies s) = filter (\<lambda>bp. pstates s bp = Pending) (bodies s)"
    by (rule filter_cong) (simp_all add: assms(3) ne)
  then show ?thesis
    using assms(4) by (simp add: bodies_in_flight_def)
qed

lemma bif_settle_le:
  assumes "pstates s' = (pstates s)(p := x)" and "x \<noteq> Pending" and "bodies s' = bodies s"
  shows "length (bodies_in_flight s') \<le> length (bodies_in_flight s)"
proof -
  have "bodies_in_flight s' = filter (\<lambda>bp. bp \<noteq> p) (bodies_in_flight s)"
    using assms by (auto simp: bodies_in_flight_def intro: filter_cong)
  then show ?thesis by simp
qed

lemma bif_settle_less:
  assumes "pstates s' = (pstates s)(p := x)" and "x \<noteq> Pending" and "bodies s' = bodies s"
    and "p \<in> set (bodies s)" and "pstates s p = Pending"
  shows "length (bodies_in_flight s') < length (bodies_in_flight s)"
proof -
  have e: "bodies_in_flight s' = filter (\<lambda>bp. bp \<noteq> p) (bodies_in_flight s)"
    using assms by (auto simp: bodies_in_flight_def intro: filter_cong)
  have "p \<in> set (bodies_in_flight s)" using assms by (simp add: bodies_in_flight_def)
  then show ?thesis unfolding e by (simp add: length_filter_less)
qed

text \<open>Resolving a handle or a derived promise.\<close>

lemma live_resolve_other:
  assumes w: "wf s" and k: "fst p \<noteq> BodyResult"
  shows "live (resolve_promise p v s) =
           live s + length (filter (\<lambda>x. fst x = p \<and> is_run (snd x)) (reactions s))
         \<or> live (resolve_promise p v s) = live s"
proof (cases "pstates s p = Pending")
  case False
  then show ?thesis by (simp add: resolve_promise_def)
next
  case True
  define s' where "s' = resolve_promise p v s"
  have q: "queue s' = queue s @ fulfil_jobs p v (reactions s)"
    and ps: "pstates s' = (pstates s)(p := Fulfilled v)" and bo: "bodies s' = bodies s"
    using True by (simp_all add: s'_def resolve_promise_def)
  have "bodies_in_flight s' = bodies_in_flight s"
    using bif_settle_other[OF w k ps bo] .
  then have "live s' = live s + length (filter (\<lambda>x. fst x = p \<and> is_run (snd x)) (reactions s))"
    using no_body_reaction_on[OF w k] by (simp add: live_def q len_live_fulfil)
  then show ?thesis by (simp add: s'_def)
qed

lemma live_resolve_le:
  assumes w: "wf s" and k: "fst p \<noteq> BodyResult"
  shows "live (resolve_promise p v s) \<le> live s + 1"
  using live_resolve_other[OF w k, of v] run_reactions_le1[OF w, of p] by auto

lemma live_resolve_none:
  assumes w: "wf s" and k: "fst p \<noteq> BodyResult" and "\<forall>p'. (p, KRun p') \<notin> set (reactions s)"
  shows "live (resolve_promise p v s) = live s"
  using live_resolve_other[OF w k, of v] no_run_reaction_filter[OF assms(3)] by auto

lemma live_resolve_derived:
  assumes w: "wf s" and k: "fst p = Derived"
  shows "live (resolve_promise p v s) = live s"
  using live_resolve_other[OF w, of p v] no_run_reaction_on[OF w, of p] k by auto

lemma live_reject_other:
  assumes w: "wf s" and k: "fst p \<noteq> BodyResult"
  shows "live (reject_promise p e s) = live s"
proof (cases "pstates s p = Pending")
  case False
  then show ?thesis by (simp add: reject_promise_def)
next
  case True
  define s' where "s' = reject_promise p e s"
  have q: "queue s' = queue s @ reject_jobs p e (reactions s)"
    and ps: "pstates s' = (pstates s)(p := Rejected e)" and bo: "bodies s' = bodies s"
    using True by (simp_all add: s'_def reject_promise_def)
  have "bodies_in_flight s' = bodies_in_flight s"
    using bif_settle_other[OF w k ps bo] .
  then have "live s' = live s" by (simp add: live_def q live_reject_jobs)
  then show ?thesis by (simp add: s'_def)
qed

text \<open>Settling a body promise.\<close>

lemma live_resolve_body:
  assumes w: "wf s" and m: "bp \<in> set (bodies s)"
  shows "live (resolve_promise bp v s) \<le> live s"
proof (cases "pstates s bp = Pending")
  case False
  then show ?thesis by (simp add: resolve_promise_def)
next
  case True
  define s' where "s' = resolve_promise bp v s"
  have q: "queue s' = queue s @ fulfil_jobs bp v (reactions s)"
    and ps: "pstates s' = (pstates s)(bp := Fulfilled v)" and bo: "bodies s' = bodies s"
    using True by (simp_all add: s'_def resolve_promise_def)
  have k: "fst bp \<noteq> Handle" using w m by (auto simp: wf_def)
  have "length (bodies_in_flight s') < length (bodies_in_flight s)"
    using bif_settle_less[OF ps _ bo m True] by simp
  then have "live s' \<le> live s"
    using no_run_reaction_on[OF w k] body_reactions_le1[OF w, of bp]
    by (simp add: live_def q len_live_fulfil)
  then show ?thesis by (simp add: s'_def)
qed

lemma live_reject_body:
  assumes w: "wf s"
  shows "live (reject_promise bp e s) \<le> live s"
proof (cases "pstates s bp = Pending")
  case False
  then show ?thesis by (simp add: reject_promise_def)
next
  case True
  define s' where "s' = reject_promise bp e s"
  have q: "queue s' = queue s @ reject_jobs bp e (reactions s)"
    and ps: "pstates s' = (pstates s)(bp := Rejected e)" and bo: "bodies s' = bodies s"
    using True by (simp_all add: s'_def reject_promise_def)
  have "length (bodies_in_flight s') \<le> length (bodies_in_flight s)"
    using bif_settle_le[OF ps _ bo] by simp
  then have "live s' \<le> live s" by (simp add: live_def q live_reject_jobs)
  then show ?thesis by (simp add: s'_def)
qed

lemma job_ok_cong:
  "next_pid s' = next_pid s \<Longrightarrow> pstates s' = pstates s \<Longrightarrow> job_ok s' j = job_ok s j"
  by (cases j) simp_all

lemma wf_core: "core s' = core s \<Longrightarrow> wf s' = wf s"
proof -
  assume c: "core s' = core s"
  then have e: "reactions s' = reactions s" "queue s' = queue s" "bodies s' = bodies s"
    "pstates s' = pstates s" "next_pid s' = next_pid s" "running (watch s') = running (watch s)"
    by (simp_all add: core_def)
  have "\<And>j. job_ok s' j = job_ok s j" by (rule job_ok_cong) (simp_all add: e)
  then show ?thesis unfolding wf_def e by simp
qed

lemma live_core: "core s' = core s \<Longrightarrow> live s' = live s"
proof -
  assume c: "core s' = core s"
  then have e: "queue s' = queue s" "bodies s' = bodies s" "pstates s' = pstates s"
    by (simp_all add: core_def)
  show ?thesis unfolding live_def bodies_in_flight_def e by simp
qed

lemma idle_core: "core s' = core s \<Longrightarrow> idle s' = idle s"
proof -
  assume c: "core s' = core s"
  then have e: "pstates s' = pstates s" "running (watch s') = running (watch s)"
    by (simp_all add: core_def)
  show ?thesis unfolding idle_def e by simp
qed

lemma inv_core: "core s' = core s \<Longrightarrow> inv s' = inv s"
proof -
  assume c: "core s' = core s"
  then have e: "slot s' = slot s" by (simp add: core_def)
  show ?thesis unfolding inv_def wf_core[OF c] live_core[OF c] idle_core[OF c] e by simp
qed

lemma core_cleanupWatch: "core (snd (cleanupWatch s)) = core s"
  by (cases "destroy (watch s)") (simp_all add: cleanupWatch_Some cleanupWatch_None core_def)

lemma core_track: "core (snd (track obj prop s)) = core s"
  by (simp add: track_def addSub_def core_def Let_def split: option.splits)

lemma core_notify: "core (notify s) = core s"
  by (simp add: notify_def core_def)

lemma core_run_acts: "core (snd (run_acts as s)) = core s"
proof (induction as s rule: run_acts.induct)
  case (1 s)
  then show ?case by simp
next
  case (2 obj pr rest s)
  obtain r s' where t: "track obj pr s = (r, s')" by (cases "track obj pr s")
  have c: "core s' = core s" using core_track[of obj pr s] t by simp
  show ?case
  proof (cases r)
    case (Inl e)
    then show ?thesis using t c by simp
  next
    case (Inr v)
    then show ?thesis using t c 2 by simp
  qed
next
  case (3 rest s)
  then show ?case by (simp add: core_notify)
qed

lemma core_destroyWatch: "core (snd (destroyWatch c s)) = core s"
  by (simp add: destroyWatch_def Let_def core_cleanupWatch) (simp add: core_def)

lemma core_log_update [simp]: "core (s\<lparr>log := l\<rparr>) = core s"
  by (simp add: core_def)

lemma core_clearSub [simp]: "core (clearSub s) = core s"
  by (simp add: clearSub_def core_def)

text \<open>The effect body: at most one fresh body promise.\<close>

lemma invoke_body_core:
  assumes "invoke_body b s = (r, s')"
  shows "(\<forall>bp. r \<noteq> Inr (Async bp)) \<and> core s' = core s
       \<or> r = Inr (Async (BodyResult, next_pid s))
         \<and> reactions s' = reactions s \<and> queue s' = queue s
         \<and> bodies s' = bodies s @ [(BodyResult, next_pid s)]
         \<and> pstates s' = pstates s \<and> next_pid s' = Suc (next_pid s)
         \<and> running (watch s') = running (watch s) \<and> slot s' = slot s"
proof -
  let ?s1 = "clearSub s\<lparr>log := log (clearSub s) @ [EvBody (f (watch (clearSub s)))]\<rparr>"
  obtain e s2 where ra: "run_acts (acts b) ?s1 = (e, s2)" by (cases "run_acts (acts b) ?s1")
  have c2: "core s2 = core s" using core_run_acts[of "acts b" ?s1] ra by simp
  show ?thesis
  proof (cases e)
    case (Some x)
    then show ?thesis using assms ra c2 by (auto simp: invoke_body_def Let_def)
  next
    case None
    show ?thesis
    proof (cases "ending b")
      case (Throw x)
      then show ?thesis using assms ra c2 None by (auto simp: invoke_body_def Let_def)
    next
      case (Return v)
      then show ?thesis using assms ra c2 None by (auto simp: invoke_body_def Let_def)
    next
      case ReturnPromise
      then show ?thesis
        using assms ra c2 None
        by (auto simp: invoke_body_def Let_def new_promise_def core_def)
    qed
  qed
qed

lemma invoke_body_throw_core:
  "invoke_body b s = (Inl e, s') \<Longrightarrow> core s' = core s"
  using invoke_body_core[of b s "Inl e" s'] by auto

lemma invoke_body_sync_core:
  "invoke_body b s = (Inr (Sync v), s') \<Longrightarrow> core s' = core s"
  using invoke_body_core[of b s "Inr (Sync v)" s'] by auto

lemma wf_new_body:
  assumes w: "wf s"
    and r: "reactions s' = reactions s" and q: "queue s' = queue s"
    and bo: "bodies s' = bodies s @ [(BodyResult, next_pid s)]"
    and ps: "pstates s' = pstates s" and n: "next_pid s' = Suc (next_pid s)"
    and wa: "running (watch s') = running (watch s)"
  shows "wf s'"
proof -
  have 1: "\<forall>x \<in> set (reactions s'). reaction_ok (next_pid s') x"
    using w by (auto simp: wf_def r n intro: reaction_ok_mono)
  have 2: "\<forall>j \<in> set (queue s'). job_ok s' j"
  proof
    fix j assume "j \<in> set (queue s')"
    then have "job_ok s j" using w by (simp add: wf_def q)
    then show "job_ok s' j" by (rule job_ok_mono) (simp_all add: n ps)
  qed
  have 3: "\<forall>bp \<in> set (bodies s'). fst bp = BodyResult \<and> snd bp < next_pid s'"
    using w by (auto simp: wf_def bo n)
  have 4: "\<forall>p'. next_pid s' \<le> snd p' \<longrightarrow> pstates s' p' = Pending"
    using w by (auto simp: wf_def n ps)
  have 5: "\<forall>r. running (watch s') = Some r \<longrightarrow>
             fst r = Handle \<and> snd r < next_pid s' \<and> (\<forall>p'. (r, KRun p') \<notin> set (reactions s'))"
    using w by (auto simp: wf_def wa n r)
  have 6: "distinct (map fst (filter (\<lambda>x. is_run (snd x)) (reactions s')))"
    using w by (simp add: wf_def r)
  have 7: "distinct (map fst (filter (\<lambda>x. is_bodyk (snd x)) (reactions s')))"
    using w by (simp add: wf_def r)
  show ?thesis unfolding wf_def using 1 2 3 4 5 6 7 by blast
qed

lemma live_new_body:
  assumes w: "wf s" and q: "queue s' = queue s"
    and bo: "bodies s' = bodies s @ [(BodyResult, next_pid s)]"
    and ps: "pstates s' = pstates s"
  shows "live s' = Suc (live s)"
proof -
  have "pstates s (BodyResult, next_pid s) = Pending" using w by (simp add: wf_def)
  then show ?thesis by (simp add: live_def bodies_in_flight_def q bo ps)
qed

lemma core_eqD:
  assumes "core s' = core s"
  shows "reactions s' = reactions s" "queue s' = queue s" "bodies s' = bodies s"
    "pstates s' = pstates s" "next_pid s' = next_pid s"
    "running (watch s') = running (watch s)" "slot s' = slot s"
  using assms by (simp_all add: core_def)

lemma core_resolve_cong:
  assumes "core s' = core s"
  shows "core (resolve_promise p v s') = core (resolve_promise p v s)"
  using core_eqD[OF assms] by (simp add: resolve_promise_def core_def)

lemma core_reject_cong:
  assumes "core s' = core s"
  shows "core (reject_promise p e s') = core (reject_promise p e s)"
  using core_eqD[OF assms] by (simp add: reject_promise_def core_def)

lemma core_then_cong:
  assumes "core s' = core s"
  shows "core (promise_then p k s') = core (promise_then p k s)"
  using core_eqD[OF assms] by (simp add: promise_then_def core_def split: pstate.splits)

lemma core_with_body_cong:
  assumes "core s' = core s"
  shows "core (with_body s') = core (with_body s)"
  using core_eqD[OF assms] by (simp add: with_body_def core_def)

lemma core_with_handle_cong:
  assumes "core s' = core s"
  shows "core (with_handle s') = core (with_handle s)"
  using core_eqD[OF assms] by (simp add: with_handle_def core_def)

lemma wf_with_body: "wf s \<Longrightarrow> wf (with_body s)"
  by (rule wf_new_body[of s]) (simp_all add: with_body_def)

lemma live_with_body: "wf s \<Longrightarrow> live (with_body s) = Suc (live s)"
  by (rule live_new_body[of s]) (simp_all add: with_body_def)

lemma wf_with_handle:
  assumes w: "wf s"
  shows "wf (with_handle s)"
proof -
  define s' where "s' = with_handle s"
  have r: "reactions s' = reactions s" and q: "queue s' = queue s" and bo: "bodies s' = bodies s"
    and ps: "pstates s' = pstates s" and n: "next_pid s' = Suc (next_pid s)"
    and wa: "running (watch s') = Some (Handle, next_pid s)"
    by (simp_all add: s'_def with_handle_def)
  have 1: "\<forall>x \<in> set (reactions s'). reaction_ok (next_pid s') x"
    using w by (auto simp: wf_def r n intro: reaction_ok_mono)
  have 2: "\<forall>j \<in> set (queue s'). job_ok s' j"
  proof
    fix j assume "j \<in> set (queue s')"
    then have "job_ok s j" using w by (simp add: wf_def q)
    then show "job_ok s' j" by (rule job_ok_mono) (simp_all add: n ps)
  qed
  have 3: "\<forall>bp \<in> set (bodies s'). fst bp = BodyResult \<and> snd bp < next_pid s'"
    using w by (auto simp: wf_def bo n)
  have 4: "\<forall>p'. next_pid s' \<le> snd p' \<longrightarrow> pstates s' p' = Pending"
    using w by (auto simp: wf_def n ps)
  have "\<And>x. x \<in> set (reactions s) \<Longrightarrow> snd (fst x) < next_pid s"
    using w by (simp add: wf_def reaction_ok_def)
  then have "\<forall>p'. ((Handle, next_pid s), KRun p') \<notin> set (reactions s)"
    by fastforce
  then have 5: "\<forall>r. running (watch s') = Some r \<longrightarrow>
             fst r = Handle \<and> snd r < next_pid s' \<and> (\<forall>p'. (r, KRun p') \<notin> set (reactions s'))"
    by (simp add: wa n r)
  have 6: "distinct (map fst (filter (\<lambda>x. is_run (snd x)) (reactions s')))"
    using w by (simp add: wf_def r)
  have 7: "distinct (map fst (filter (\<lambda>x. is_bodyk (snd x)) (reactions s')))"
    using w by (simp add: wf_def r)
  have "wf s'" unfolding wf_def using 1 2 3 4 5 6 7 by blast
  then show ?thesis by (simp add: s'_def)
qed

lemma live_with_handle: "live (with_handle s) = live s"
  by (simp add: live_def bodies_in_flight_def with_handle_def)

text \<open>Registering a handler.\<close>

lemma wf_then:
  assumes w: "wf s" and b: "snd q < next_pid s" and c: "cont_ok (next_pid s) k"
    and r: "is_run k \<longrightarrow> fst q = Handle \<and> running (watch s) \<noteq> Some q
                       \<and> (\<forall>x \<in> set (reactions s). fst x = q \<longrightarrow> \<not> is_run (snd x))"
    and bk: "is_bodyk k \<longrightarrow> fst q = BodyResult
                       \<and> (\<forall>x \<in> set (reactions s). fst x = q \<longrightarrow> \<not> is_bodyk (snd x))"
  shows "wf (promise_then q k s)"
proof -
  define s' where "s' = promise_then q k s"
  have n: "next_pid s' = next_pid s" and bo: "bodies s' = bodies s"
    and ps: "pstates s' = pstates s" and wa: "watch s' = watch s"
    by (simp_all add: s'_def promise_then_def split: pstate.splits)
  have rs: "reactions s' = reactions s \<or> pstates s q = Pending \<and> reactions s' = reactions s @ [(q, k)]"
    by (auto simp: s'_def promise_then_def split: pstate.splits)
  have qs: "queue s' = queue s
          \<or> (\<exists>v. pstates s q = Fulfilled v \<and> queue s' = queue s @ [React q k v])
          \<or> (\<exists>e. queue s' = queue s @ reject_job e k)"
    by (auto simp: s'_def promise_then_def split: pstate.splits)
  have 1: "\<forall>x \<in> set (reactions s'). reaction_ok (next_pid s') x"
    using w rs b c r bk by (auto simp: wf_def n reaction_ok_def)
  have old: "\<And>j. j \<in> set (queue s) \<Longrightarrow> job_ok s' j"
  proof -
    fix j assume "j \<in> set (queue s)"
    then have "job_ok s j" using w by (simp add: wf_def)
    then show "job_ok s' j" by (rule job_ok_mono) (simp_all add: n ps)
  qed
  have rj: "\<And>e j. j \<in> set (reject_job e k) \<Longrightarrow> job_ok s' j"
    using c by (cases k) (auto simp: n)
  have 2: "\<forall>j \<in> set (queue s'). job_ok s' j"
    using qs old rj c by (auto simp: n ps)
  have 3: "\<forall>bp \<in> set (bodies s'). fst bp = BodyResult \<and> snd bp < next_pid s'"
    using w by (simp add: wf_def bo n)
  have 4: "\<forall>p'. next_pid s' \<le> snd p' \<longrightarrow> pstates s' p' = Pending"
    using w by (auto simp: wf_def n ps)
  have 5: "\<forall>r. running (watch s') = Some r \<longrightarrow>
             fst r = Handle \<and> snd r < next_pid s' \<and> (\<forall>p'. (r, KRun p') \<notin> set (reactions s'))"
    using w rs r by (auto simp: wf_def wa n)
  have 6: "distinct (map fst (filter (\<lambda>x. is_run (snd x)) (reactions s')))"
    using w rs r by (auto simp: wf_def)
  have 7: "distinct (map fst (filter (\<lambda>x. is_bodyk (snd x)) (reactions s')))"
    using w rs bk by (auto simp: wf_def)
  have "wf s'" unfolding wf_def using 1 2 3 4 5 6 7 by blast
  then show ?thesis by (simp add: s'_def)
qed

lemma live_reject_job: "filter live_job (reject_job e k) = []"
  by (cases k) simp_all

lemma live_then:
  "live (promise_then q k s) =
     live s + (if (is_run k \<or> is_bodyk k) \<and> (\<exists>v. pstates s q = Fulfilled v) then 1 else 0)"
  by (cases "pstates s q")
     (simp_all add: promise_then_def live_def bodies_in_flight_def live_reject_job)

lemma pstates_then [simp]: "pstates (promise_then q k s) = pstates s"
  by (simp add: promise_then_def split: pstate.splits)

lemma running_then [simp]: "running (watch (promise_then q k s)) = running (watch s)"
  by (simp add: promise_then_def split: pstate.splits)

lemma running_resolve [simp]: "running (watch (resolve_promise q v s)) = running (watch s)"
  by (simp add: resolve_promise_def)

lemma running_reject [simp]: "running (watch (reject_promise q v s)) = running (watch s)"
  by (simp add: reject_promise_def)

lemma slot_then [simp]: "slot (promise_then q k s) = slot s"
  by (simp add: promise_then_def split: pstate.splits)

lemma slot_resolve [simp]: "slot (resolve_promise q v s) = slot s"
  by (simp add: resolve_promise_def)

lemma slot_reject [simp]: "slot (reject_promise q v s) = slot s"
  by (simp add: reject_promise_def)

lemma pstates_resolve_other: "x \<noteq> p \<Longrightarrow> pstates (resolve_promise p v s) x = pstates s x"
  by (simp add: resolve_promise_def)

lemma pstates_reject_other: "x \<noteq> p \<Longrightarrow> pstates (reject_promise p v s) x = pstates s x"
  by (simp add: reject_promise_def)

lemma pstates_resolve_settled: "pstates (resolve_promise p v s) p \<noteq> Pending"
  by (simp add: resolve_promise_def)

lemma pstates_reject_settled: "pstates (reject_promise p v s) p \<noteq> Pending"
  by (simp add: reject_promise_def)

text \<open>The three ways the run callback can end.\<close>

lemma body_callback_core:
  assumes c2: "core s2 = core s"
  shows "core (body_callback p v s2) = core (resolve_promise p VWatch s)"
proof (cases v)
  case (VFun g)
  have "core (s2\<lparr>watch := (watch s2)\<lparr>destroy := Some g\<rparr>\<rparr>) = core s"
    using c2 by (simp add: core_def)
  then have "core (resolve_promise p VWatch (s2\<lparr>watch := (watch s2)\<lparr>destroy := Some g\<rparr>\<rparr>))
             = core (resolve_promise p VWatch s)"
    by (rule core_resolve_cong)
  then show ?thesis using VFun by (simp add: body_callback_def)
qed (simp_all add: body_callback_def core_resolve_cong[OF c2])

lemma invoke_body_async_core:
  assumes "invoke_body b s1 = (Inr (Async bp), s2)"
  shows "bp = (BodyResult, next_pid s1)" and "core s2 = core (with_body s1)"
proof -
  have a: "reactions s2 = reactions s1 \<and> queue s2 = queue s1
         \<and> bodies s2 = bodies s1 @ [(BodyResult, next_pid s1)]
         \<and> pstates s2 = pstates s1 \<and> next_pid s2 = Suc (next_pid s1)
         \<and> running (watch s2) = running (watch s1) \<and> slot s2 = slot s1"
    and b: "bp = (BodyResult, next_pid s1)"
    using invoke_body_core[OF assms] by blast+
  show "bp = (BodyResult, next_pid s1)" by (rule b)
  show "core s2 = core (with_body s1)"
    unfolding core_def with_body_def using a by simp
qed

lemma run_callback_unfold:
  assumes "cleanupWatch (s\<lparr>log := log s @ [EvRunStart p q]\<rparr>) = (None, s1)"
    and "invoke_body b s1 = (r, s2)"
  shows "run_callback b p q s =
          (case r of
             Inl e \<Rightarrow> (Some e, s2)
           | Inr (Sync v) \<Rightarrow> (None, body_callback p v s2)
           | Inr (Async bp) \<Rightarrow> (None, promise_then bp (KBody p) s2))"
  unfolding run_callback_alt assms(1) using assms(2)
  by (simp split: sum.splits value_or_promise.splits)

lemma run_callback_shape:
  "(fst (run_callback b p q s) \<noteq> None \<and> core (snd (run_callback b p q s)) = core s)
   \<or> (fst (run_callback b p q s) = None
       \<and> core (snd (run_callback b p q s)) = core (resolve_promise p VWatch s))
   \<or> (fst (run_callback b p q s) = None
       \<and> core (snd (run_callback b p q s))
           = core (promise_then (BodyResult, next_pid s) (KBody p) (with_body s)))"
proof -
  define s0 where "s0 = s\<lparr>log := log s @ [EvRunStart p q]\<rparr>"
  obtain s1 where cw: "cleanupWatch s0 = (None, s1)"
    using cleanupWatch_fst[of s0] by (cases "cleanupWatch s0") simp
  have "core s1 = core s0" using core_cleanupWatch[of s0] cw by simp
  then have c1: "core s1 = core s" by (simp add: s0_def)
  obtain r s2 where ib: "invoke_body b s1 = (r, s2)" by (cases "invoke_body b s1")
  have rc: "run_callback b p q s =
          (case r of
             Inl e \<Rightarrow> (Some e, s2)
           | Inr (Sync v) \<Rightarrow> (None, body_callback p v s2)
           | Inr (Async bp) \<Rightarrow> (None, promise_then bp (KBody p) s2))"
    using cw ib unfolding s0_def by (rule run_callback_unfold)
  show ?thesis
  proof (cases r)
    case (Inl e)
    have "invoke_body b s1 = (Inl e, s2)" using ib Inl by simp
    then have "core s2 = core s1" by (rule invoke_body_throw_core)
    then have "core s2 = core s" using c1 by simp
    then show ?thesis unfolding rc Inl by simp
  next
    case (Inr br)
    show ?thesis
    proof (cases br)
      case (Sync v)
      have "invoke_body b s1 = (Inr (Sync v), s2)" using ib Inr Sync by simp
      then have "core s2 = core s1" by (rule invoke_body_sync_core)
      then have c2: "core s2 = core s" using c1 by simp
      have "core (body_callback p v s2) = core (resolve_promise p VWatch s)"
        using c2 by (rule body_callback_core)
      then show ?thesis unfolding rc Inr Sync by simp
    next
      case (Async bp)
      have ib': "invoke_body b s1 = (Inr (Async bp), s2)" using ib Inr Async by simp
      have bp: "bp = (BodyResult, next_pid s)"
        using invoke_body_async_core(1)[OF ib'] core_eqD(5)[OF c1] by simp
      have "core (with_body s1) = core (with_body s)" using c1 by (rule core_with_body_cong)
      then have "core s2 = core (with_body s)" using invoke_body_async_core(2)[OF ib'] by simp
      then have "core (promise_then bp (KBody p) s2)
                 = core (promise_then bp (KBody p) (with_body s))"
        by (rule core_then_cong)
      then show ?thesis unfolding rc Inr Async bp by simp
    qed
  qed
qed

lemma core_promises:
  "core s' = core s \<longleftrightarrow> promises s' = promises s \<and> running (watch s') = running (watch s)"
  by (auto simp: core_def promises_def)

lemma promises_eqD:
  assumes "promises s' = promises s"
  shows "reactions s' = reactions s" "queue s' = queue s" "bodies s' = bodies s"
    "pstates s' = pstates s" "next_pid s' = next_pid s" "slot s' = slot s"
  using assms by (simp_all add: promises_def)

lemma promises_resolve_cong:
  assumes "promises s' = promises s"
  shows "promises (resolve_promise p v s') = promises (resolve_promise p v s)"
  using promises_eqD[OF assms] by (simp add: resolve_promise_def promises_def)

lemma promises_reject_cong:
  assumes "promises s' = promises s"
  shows "promises (reject_promise p e s') = promises (reject_promise p e s)"
  using promises_eqD[OF assms] by (simp add: reject_promise_def promises_def)

lemma promises_then_cong:
  assumes "promises s' = promises s"
  shows "promises (promise_then p k s') = promises (promise_then p k s)"
  using promises_eqD[OF assms] by (simp add: promise_then_def promises_def split: pstate.splits)

lemma promises_with_body_cong:
  assumes "promises s' = promises s"
  shows "promises (with_body s') = promises (with_body s)"
  using promises_eqD[OF assms] by (simp add: with_body_def promises_def)

lemma running_with_body [simp]: "running (watch (with_body s)) = running (watch s)"
  by (simp add: with_body_def)

lemma promises_set_running [simp]:
  "promises (s\<lparr>watch := (watch s)\<lparr>running := r\<rparr>\<rparr>) = promises s"
  by (simp add: promises_def)

text \<open>The promise of a no-op call.\<close>

lemma wf_promise_resolve:
  assumes w: "wf s"
  shows "wf (snd (promise_resolve v s))"
proof -
  define s' where "s' = snd (promise_resolve v s)"
  have r: "reactions s' = reactions s" and q: "queue s' = queue s" and bo: "bodies s' = bodies s"
    and ps: "pstates s' = (pstates s)((Resolved, next_pid s) := Fulfilled v)"
    and n: "next_pid s' = Suc (next_pid s)"
    and wa: "watch s' = watch s"
    by (simp_all add: s'_def promise_resolve_def)
  have 1: "\<forall>x \<in> set (reactions s'). reaction_ok (next_pid s') x"
    using w by (auto simp: wf_def r n intro: reaction_ok_mono)
  have 2: "\<forall>j \<in> set (queue s'). job_ok s' j"
  proof
    fix j assume "j \<in> set (queue s')"
    then have "job_ok s j" using w by (simp add: wf_def q)
    then show "job_ok s' j" by (rule job_ok_mono) (auto simp: n ps)
  qed
  have 3: "\<forall>bp \<in> set (bodies s'). fst bp = BodyResult \<and> snd bp < next_pid s'"
    using w by (auto simp: wf_def bo n)
  have 4: "\<forall>p'. next_pid s' \<le> snd p' \<longrightarrow> pstates s' p' = Pending"
    using w by (auto simp: wf_def n ps)
  have 5: "\<forall>r. running (watch s') = Some r \<longrightarrow>
             fst r = Handle \<and> snd r < next_pid s' \<and> (\<forall>p'. (r, KRun p') \<notin> set (reactions s'))"
    using w by (auto simp: wf_def wa n r)
  have 6: "distinct (map fst (filter (\<lambda>x. is_run (snd x)) (reactions s')))"
    using w by (simp add: wf_def r)
  have 7: "distinct (map fst (filter (\<lambda>x. is_bodyk (snd x)) (reactions s')))"
    using w by (simp add: wf_def r)
  have "wf s'" unfolding wf_def using 1 2 3 4 5 6 7 by blast
  then show ?thesis by (simp add: s'_def)
qed

lemma live_promise_resolve:
  assumes w: "wf s"
  shows "live (snd (promise_resolve v s)) = live s"
proof -
  define s' where "s' = snd (promise_resolve v s)"
  have q: "queue s' = queue s" and bo: "bodies s' = bodies s"
    and ps: "pstates s' = (pstates s)((Resolved, next_pid s) := Fulfilled v)"
    by (simp_all add: s'_def promise_resolve_def)
  have "bodies_in_flight s' = bodies_in_flight s"
    using bif_settle_other[OF w _ ps bo] by simp
  then have "live s' = live s" by (simp add: live_def q)
  then show ?thesis by (simp add: s'_def)
qed

lemma idle_promise_resolve:
  assumes w: "wf s"
  shows "idle (snd (promise_resolve v s)) = idle s"
proof -
  define s' where "s' = snd (promise_resolve v s)"
  have ps: "pstates s' = (pstates s)((Resolved, next_pid s) := Fulfilled v)"
    and wa: "watch s' = watch s"
    by (simp_all add: s'_def promise_resolve_def)
  have "\<And>r. running (watch s) = Some r \<Longrightarrow> r \<noteq> (Resolved, next_pid s)"
    using w by (auto simp: wf_def)
  then have "idle s' = idle s"
    by (auto simp: idle_def wa ps split: option.splits)
  then show ?thesis by (simp add: s'_def)
qed

lemma inv_promise_resolve:
  assumes "inv s"
  shows "inv (snd (promise_resolve v s))"
proof -
  have w: "wf s" using assms by (simp add: inv_def)
  have "slot (snd (promise_resolve v s)) = slot s" by (simp add: promise_resolve_def)
  then show ?thesis
    using assms wf_promise_resolve[OF w] live_promise_resolve[OF w] idle_promise_resolve[OF w]
    by (simp add: inv_def)
qed

lemma idle_pending: "running (watch s) = Some r \<Longrightarrow> pstates s r = Pending \<Longrightarrow> \<not> idle s"
  by (simp add: idle_def)

lemma not_idleD: "\<not> idle s \<Longrightarrow> \<exists>r. running (watch s) = Some r \<and> pstates s r = Pending"
  by (auto simp: idle_def split: option.splits)

lemma invI:
  "wf s \<Longrightarrow> live s \<le> 1 \<Longrightarrow> (idle s \<Longrightarrow> live s = 0) \<Longrightarrow> slot s \<Longrightarrow> inv s"
  by (auto simp: inv_def)

lemma inv_resolve_handle:
  assumes w: "wf s" and l: "live s = 0" and hp: "fst p = Handle" and bp: "snd p < next_pid s"
    and run: "\<not> idle s \<or> running (watch s) = Some p" and sl: "slot s"
  shows "inv (resolve_promise p VWatch s)"
proof (rule invI)
  have k: "fst p \<noteq> BodyResult" using hp by simp
  show "wf (resolve_promise p VWatch s)" using w bp by (rule wf_resolve)
  show "live (resolve_promise p VWatch s) \<le> 1"
    using live_resolve_le[OF w k, of VWatch] l by simp
  show "slot (resolve_promise p VWatch s)" using sl by simp
  show "live (resolve_promise p VWatch s) = 0" if i: "idle (resolve_promise p VWatch s)"
  proof (cases "running (watch s) = Some p")
    case True
    then have "\<forall>p'. (p, KRun p') \<notin> set (reactions s)" using w by (simp add: wf_def)
    then show ?thesis using live_resolve_none[OF w k, of VWatch] l by simp
  next
    case False
    then obtain r where r: "running (watch s) = Some r" "pstates s r = Pending"
      using run not_idleD by blast
    then have "r \<noteq> p" using False by auto
    then have "pstates (resolve_promise p VWatch s) r = Pending"
      using r by (simp add: pstates_resolve_other)
    then have "\<not> idle (resolve_promise p VWatch s)"
      using r by (intro idle_pending[of _ r]) simp_all
    then show ?thesis using i by simp
  qed
qed

lemma inv_reject_handle:
  assumes w: "wf s" and l: "live s = 0" and hp: "fst p = Handle" and bp: "snd p < next_pid s"
    and sl: "slot s"
  shows "inv (reject_promise p e s)"
proof (rule invI)
  have k: "fst p \<noteq> BodyResult" using hp by simp
  show "wf (reject_promise p e s)" using w bp by (rule wf_reject)
  show "live (reject_promise p e s) \<le> 1" using live_reject_other[OF w k, of e] l by simp
  show "slot (reject_promise p e s)" using sl by simp
  show "live (reject_promise p e s) = 0" using live_reject_other[OF w k, of e] l by simp
qed

lemma inv_then_body:
  assumes w: "wf s" and l: "live s = 0" and hp: "fst p = Handle" and bp: "snd p < next_pid s"
    and run: "\<not> idle s" and sl: "slot s"
  shows "inv (promise_then (BodyResult, next_pid s) (KBody p) (with_body s))"
proof (rule invI)
  define t where "t = with_body s"
  define b where "b = (BodyResult, next_pid s)"
  have wt: "wf t" unfolding t_def using w by (rule wf_with_body)
  have nt: "next_pid t = Suc (next_pid s)" and rt: "reactions t = reactions s"
    and pt: "pstates t = pstates s" and wat: "running (watch t) = running (watch s)"
    and st: "slot t = slot s"
    by (simp_all add: t_def with_body_def)
  have fresh: "\<And>x. x \<in> set (reactions s) \<Longrightarrow> fst x \<noteq> b"
    using w by (auto simp: wf_def reaction_ok_def b_def)
  have pb: "pstates s b = Pending" using w by (simp add: wf_def b_def)
  have "wf (promise_then b (KBody p) t)"
  proof (rule wf_then[OF wt])
    show "snd b < next_pid t" by (simp add: nt b_def)
    show "cont_ok (next_pid t) (KBody p)" using hp bp by (simp add: nt)
    show "is_run (KBody p) \<longrightarrow> fst b = Handle \<and> running (watch t) \<noteq> Some b
            \<and> (\<forall>x \<in> set (reactions t). fst x = b \<longrightarrow> \<not> is_run (snd x))" by simp
    show "is_bodyk (KBody p) \<longrightarrow> fst b = BodyResult
            \<and> (\<forall>x \<in> set (reactions t). fst x = b \<longrightarrow> \<not> is_bodyk (snd x))"
      using fresh by (auto simp: rt b_def)
  qed
  then show "wf (promise_then (BodyResult, next_pid s) (KBody p) (with_body s))"
    by (simp add: t_def b_def)
  have "pstates t b = Pending" using pb by (simp add: pt)
  moreover have "live t = 1" using live_with_body[OF w] l by (simp add: t_def)
  ultimately have lv: "live (promise_then b (KBody p) t) = 1"
    by (simp add: live_then)
  then show "live (promise_then (BodyResult, next_pid s) (KBody p) (with_body s)) \<le> 1"
    by (simp add: t_def b_def)
  obtain r where r: "running (watch s) = Some r" "pstates s r = Pending"
    using run not_idleD by blast
  have "\<not> idle (promise_then b (KBody p) t)"
    by (rule idle_pending[of _ r]) (simp_all add: wat pt r)
  then show "idle (promise_then (BodyResult, next_pid s) (KBody p) (with_body s)) \<Longrightarrow>
        live (promise_then (BodyResult, next_pid s) (KBody p) (with_body s)) = 0"
    by (simp add: t_def b_def)
  show "slot (promise_then (BodyResult, next_pid s) (KBody p) (with_body s))"
    using sl by (simp add: with_body_def)
qed

text \<open>A dirty call: the world once the handle is allocated and stored.\<close>

lemma with_handle_facts:
  assumes w: "wf s"
  shows "wf (with_handle s)" "live (with_handle s) = live s"
    "running (watch (with_handle s)) = Some (Handle, next_pid s)"
    "pstates (with_handle s) = pstates s"
    "pstates (with_handle s) (Handle, next_pid s) = Pending"
    "next_pid (with_handle s) = Suc (next_pid s)"
    "reactions (with_handle s) = reactions s"
    "slot (with_handle s) = slot s"
    "\<not> idle (with_handle s)"
proof -
  show "wf (with_handle s)" using w by (rule wf_with_handle)
  show "live (with_handle s) = live s" by (rule live_with_handle)
  show r: "running (watch (with_handle s)) = Some (Handle, next_pid s)"
    by (simp add: with_handle_def)
  show "pstates (with_handle s) = pstates s" by (simp add: with_handle_def)
  show p: "pstates (with_handle s) (Handle, next_pid s) = Pending"
    using w by (simp add: with_handle_def wf_def)
  show "next_pid (with_handle s) = Suc (next_pid s)" by (simp add: with_handle_def)
  show "reactions (with_handle s) = reactions s" by (simp add: with_handle_def)
  show "slot (with_handle s) = slot s" by (simp add: with_handle_def)
  show "\<not> idle (with_handle s)" using r p by (rule idle_pending)
qed

lemma inv_then_run:
  assumes i: "inv s" and sl: "slot s" and rq: "running (watch s) = Some q"
  shows "inv (promise_then q (KRun (Handle, next_pid s)) (with_handle s))"
proof (rule invI)
  define t where "t = with_handle s"
  define p where "p = (Handle, next_pid s)"
  have w: "wf s" using i by (simp add: inv_def)
  note f = with_handle_facts[OF w, folded t_def p_def]
  have q: "fst q = Handle" "snd q < next_pid s" "\<forall>p'. (q, KRun p') \<notin> set (reactions s)"
    using w rq by (simp_all add: wf_def)
  have qp: "q \<noteq> p" using q(2) by (auto simp: p_def)
  have norun: "\<forall>x \<in> set (reactions t). fst x = q \<longrightarrow> \<not> is_run (snd x)"
  proof (intro ballI impI)
    fix x assume x: "x \<in> set (reactions t)" "fst x = q"
    obtain q' k where xk: "x = (q', k)" by (cases x)
    show "\<not> is_run (snd x)" using x q(3) xk f(7) by (cases k) auto
  qed
  have wt: "wf (promise_then q (KRun p) t)"
  proof (rule wf_then[OF f(1)])
    show "snd q < next_pid t" using q(2) f(6) by simp
    show "cont_ok (next_pid t) (KRun p)" by (simp add: f(6) p_def)
    show "is_run (KRun p) \<longrightarrow> fst q = Handle \<and> running (watch t) \<noteq> Some q
            \<and> (\<forall>x \<in> set (reactions t). fst x = q \<longrightarrow> \<not> is_run (snd x))"
      using q(1) qp norun f(3) by simp
    show "is_bodyk (KRun p) \<longrightarrow> fst q = BodyResult
            \<and> (\<forall>x \<in> set (reactions t). fst x = q \<longrightarrow> \<not> is_bodyk (snd x))" by simp
  qed
  then show "wf (promise_then q (KRun (Handle, next_pid s)) (with_handle s))"
    by (simp add: t_def p_def)
  have lv: "live (promise_then q (KRun p) t) \<le> 1"
  proof (cases "\<exists>v. pstates s q = Fulfilled v")
    case True
    then have "idle s" using rq by (auto simp: idle_def)
    then have "live s = 0" using i by (simp add: inv_def)
    then show ?thesis using f(2) by (simp add: live_then f(4))
  next
    case False
    then show ?thesis using i f(2) by (simp add: live_then f(4) inv_def)
  qed
  then show "live (promise_then q (KRun (Handle, next_pid s)) (with_handle s)) \<le> 1"
    by (simp add: t_def p_def)
  have "\<not> idle (promise_then q (KRun p) t)"
    by (rule idle_pending[of _ p]) (simp_all add: f(3) f(5))
  then show "idle (promise_then q (KRun (Handle, next_pid s)) (with_handle s)) \<Longrightarrow>
        live (promise_then q (KRun (Handle, next_pid s)) (with_handle s)) = 0"
    by (simp add: t_def p_def)
  show "slot (promise_then q (KRun (Handle, next_pid s)) (with_handle s))"
    using sl by (simp add: with_handle_def)
qed

lemma coreI:
  "promises s' = promises s \<Longrightarrow> running (watch s') = running (watch s) \<Longrightarrow> core s' = core s"
  by (simp add: core_promises)

lemma core_to_promises: "core s' = core s \<Longrightarrow> promises s' = promises s"
  by (simp add: core_promises)

lemma runWatch_clean:
  "f (watch s) AND WatchFlagsIsDirty = 0 \<Longrightarrow>
   core (snd (runWatch b s)) = core (snd (promise_resolve VWatch s))"
  by (simp add: runWatch_def promise_resolve_def core_def)

lemma runWatch_unfold:
  assumes d: "f (watch s) AND WatchFlagsIsDirty \<noteq> 0"
  shows "\<exists>s2. promises s2 = promises (with_handle s) \<and> running (watch s2) = running (watch s)
          \<and> runWatch b s =
              ((Handle, next_pid s),
               (executor b (Handle, next_pid s) s2)
                 \<lparr>watch := (watch (executor b (Handle, next_pid s) s2))
                            \<lparr>running := Some (Handle, next_pid s)\<rparr>\<rparr>)"
proof -
  define s2 where
    "s2 = s\<lparr>watch := (watch s)\<lparr>f := f (watch s) AND NOT WatchFlagsIsDirty\<rparr>,
             next_pid := Suc (next_pid s)\<rparr>"
  have "promises s2 = promises (with_handle s)"
    by (simp add: s2_def promises_def with_handle_def)
  moreover have "running (watch s2) = running (watch s)" by (simp add: s2_def)
  moreover have "runWatch b s =
              ((Handle, next_pid s),
               (executor b (Handle, next_pid s) s2)
                 \<lparr>watch := (watch (executor b (Handle, next_pid s) s2))
                            \<lparr>running := Some (Handle, next_pid s)\<rparr>\<rparr>)"
    using d by (simp add: runWatch_def Let_def new_promise_def s2_def)
  ultimately show ?thesis by blast
qed

lemma runWatch_shape:
  assumes d: "f (watch s) AND WatchFlagsIsDirty \<noteq> 0"
  shows "(\<exists>q. running (watch s) = Some q
            \<and> core (snd (runWatch b s))
                = core (promise_then q (KRun (Handle, next_pid s)) (with_handle s)))
       \<or> (running (watch s) = None
          \<and> ((\<exists>e. core (snd (runWatch b s))
                     = core (reject_promise (Handle, next_pid s) e (with_handle s)))
             \<or> core (snd (runWatch b s))
                 = core (resolve_promise (Handle, next_pid s) VWatch (with_handle s))
             \<or> core (snd (runWatch b s))
                 = core (promise_then (BodyResult, Suc (next_pid s)) (KBody (Handle, next_pid s))
                          (with_body (with_handle s)))))"
proof -
  define p where "p = (Handle, next_pid s)"
  define t where "t = with_handle s"
  obtain s2 where s2: "promises s2 = promises t" "running (watch s2) = running (watch s)"
    and rw: "runWatch b s = (p, (executor b p s2)\<lparr>watch := (watch (executor b p s2))\<lparr>running := Some p\<rparr>\<rparr>)"
    using runWatch_unfold[OF d, of b] unfolding p_def t_def by blast
  define s3 where "s3 = executor b p s2"
  have fin: "snd (runWatch b s) = s3\<lparr>watch := (watch s3)\<lparr>running := Some p\<rparr>\<rparr>"
    using rw by (simp add: s3_def)
  have rt: "running (watch t) = Some p" by (simp add: t_def p_def with_handle_def)
  have nt: "next_pid s2 = Suc (next_pid s)"
    using promises_eqD(5)[OF s2(1)] by (simp add: t_def with_handle_def)
  have final: "\<And>X. promises s3 = promises X \<Longrightarrow> running (watch X) = Some p \<Longrightarrow>
                   core (snd (runWatch b s)) = core X"
    unfolding fin by (rule coreI) simp_all
  show ?thesis
  proof (cases "running (watch s)")
    case (Some q)
    have "s3 = promise_then q (KRun p) s2" using Some s2(2) by (simp add: s3_def executor_alt)
    then have "promises s3 = promises (promise_then q (KRun p) t)"
      using promises_then_cong[OF s2(1)] by simp
    then have "core (snd (runWatch b s)) = core (promise_then q (KRun p) t)"
      by (rule final) (simp add: rt)
    then show ?thesis using Some by (simp add: p_def t_def)
  next
    case None
    define rc where "rc = run_callback b p None s2"
    have ex: "s3 = (case rc of (None, s') \<Rightarrow> s' | (Some e, s') \<Rightarrow> reject_promise p e s')"
      using None s2(2) by (simp add: s3_def executor_alt rc_def)
    have sh: "(fst rc \<noteq> None \<and> core (snd rc) = core s2)
       \<or> (fst rc = None \<and> core (snd rc) = core (resolve_promise p VWatch s2))
       \<or> (fst rc = None
           \<and> core (snd rc) = core (promise_then (BodyResult, next_pid s2) (KBody p) (with_body s2)))"
      unfolding rc_def by (rule run_callback_shape)
    obtain r s' where rcs: "rc = (r, s')" by (cases rc)
    from sh consider
        (A) e where "r = Some e" "core s' = core s2"
      | (B) "r = None" "core s' = core (resolve_promise p VWatch s2)"
      | (C) "r = None"
            "core s' = core (promise_then (BodyResult, next_pid s2) (KBody p) (with_body s2))"
      using rcs by auto
    then show ?thesis
    proof cases
      case A
      have "promises s' = promises t" using core_to_promises[OF A(2)] s2(1) by simp
      then have "promises (reject_promise p e s') = promises (reject_promise p e t)"
        by (rule promises_reject_cong)
      then have "promises s3 = promises (reject_promise p e t)"
        using ex rcs A(1) by simp
      then have "core (snd (runWatch b s)) = core (reject_promise p e t)"
        by (rule final) (simp add: rt)
      then show ?thesis using None unfolding p_def t_def by blast
    next
      case B
      have "promises (resolve_promise p VWatch s2) = promises (resolve_promise p VWatch t)"
        using s2(1) by (rule promises_resolve_cong)
      then have "promises s3 = promises (resolve_promise p VWatch t)"
        using ex rcs B core_to_promises[OF B(2)] by simp
      then have "core (snd (runWatch b s)) = core (resolve_promise p VWatch t)"
        by (rule final) (simp add: rt)
      then show ?thesis using None unfolding p_def t_def by blast
    next
      case C
      have "promises (with_body s2) = promises (with_body t)"
        using s2(1) by (rule promises_with_body_cong)
      then have "promises (promise_then (BodyResult, next_pid s2) (KBody p) (with_body s2))
               = promises (promise_then (BodyResult, next_pid s2) (KBody p) (with_body t))"
        by (rule promises_then_cong)
      then have "promises s3 = promises (promise_then (BodyResult, next_pid s2) (KBody p) (with_body t))"
        using ex rcs C core_to_promises[OF C(2)] by simp
      then have "core (snd (runWatch b s))
                 = core (promise_then (BodyResult, next_pid s2) (KBody p) (with_body t))"
        by (rule final) (simp add: rt)
      then show ?thesis using None unfolding p_def t_def nt by blast
    qed
  qed
qed

lemma inv_runWatch:
  assumes i: "inv s" and sl: "slot s"
  shows "inv (snd (runWatch b s))"
proof (cases "f (watch s) AND WatchFlagsIsDirty = 0")
  case True
  have "inv (snd (promise_resolve VWatch s))" using i by (rule inv_promise_resolve)
  then show ?thesis using inv_core[OF runWatch_clean[OF True, of b]] by simp
next
  case False
  define p where "p = (Handle, next_pid s)"
  define t where "t = with_handle s"
  have w: "wf s" using i by (simp add: inv_def)
  note f = with_handle_facts[OF w, folded t_def p_def]
  have hp: "fst p = Handle" and bp: "snd p < next_pid t" by (simp_all add: p_def f(6))
  have slt: "slot t" using sl f(8) by simp
  have sh: "(\<exists>q. running (watch s) = Some q
            \<and> core (snd (runWatch b s)) = core (promise_then q (KRun p) t))
       \<or> (running (watch s) = None
          \<and> ((\<exists>e. core (snd (runWatch b s)) = core (reject_promise p e t))
             \<or> core (snd (runWatch b s)) = core (resolve_promise p VWatch t)
             \<or> core (snd (runWatch b s))
                 = core (promise_then (BodyResult, Suc (next_pid s)) (KBody p) (with_body t))))"
    using runWatch_shape[OF False, of b] by (simp add: p_def t_def)
  show ?thesis
    using sh
  proof (elim disjE conjE exE)
    fix q
    assume Q: "running (watch s) = Some q"
      "core (snd (runWatch b s)) = core (promise_then q (KRun p) t)"
    have "inv (promise_then q (KRun p) t)"
      unfolding p_def t_def using i sl Q(1) by (rule inv_then_run)
    then show ?thesis using inv_core[OF Q(2)] by simp
  next
    fix e
    assume A: "running (watch s) = None"
      "core (snd (runWatch b s)) = core (reject_promise p e t)"
    have l0: "live t = 0" using i A(1) f(2) by (simp add: inv_def idle_def)
    have "inv (reject_promise p e t)" using f(1) l0 hp bp slt by (rule inv_reject_handle)
    then show ?thesis using inv_core[OF A(2)] by simp
  next
    assume B: "running (watch s) = None"
      "core (snd (runWatch b s)) = core (resolve_promise p VWatch t)"
    have l0: "live t = 0" using i B(1) f(2) by (simp add: inv_def idle_def)
    have "inv (resolve_promise p VWatch t)"
      using f(1) l0 hp bp _ slt by (rule inv_resolve_handle) (simp add: f(3))
    then show ?thesis using inv_core[OF B(2)] by simp
  next
    assume C: "running (watch s) = None"
      "core (snd (runWatch b s))
         = core (promise_then (BodyResult, Suc (next_pid s)) (KBody p) (with_body t))"
    have l0: "live t = 0" using i C(1) f(2) by (simp add: inv_def idle_def)
    have "inv (promise_then (BodyResult, next_pid t) (KBody p) (with_body t))"
      using f(1) l0 hp bp f(9) slt by (rule inv_then_body)
    then show ?thesis using inv_core[OF C(2)] by (simp add: f(6))
  qed
qed

lemma invD:
  assumes "inv s"
  shows "wf s" "live s \<le> 1" "idle s \<Longrightarrow> live s = 0" "\<not> slot s \<Longrightarrow> live s = 0"
  using assms by (simp_all add: inv_def)

lemma idle_cong:
  "pstates t = pstates s \<Longrightarrow> running (watch t) = running (watch s) \<Longrightarrow> idle t = idle s"
  by (simp add: idle_def split: option.splits)

text \<open>Taking the first microtask off the queue.\<close>

lemma pop_facts:
  assumes i: "inv s" and q: "queue s = j # js"
  shows "inv (s\<lparr>queue := js\<rparr>)" "job_ok (s\<lparr>queue := js\<rparr>) j"
    "live (s\<lparr>queue := js\<rparr>) + (if live_job j then 1 else 0) = live s"
    "idle (s\<lparr>queue := js\<rparr>) = idle s"
    "live_job j \<Longrightarrow> live (s\<lparr>queue := js\<rparr>) = 0 \<and> \<not> idle (s\<lparr>queue := js\<rparr>)"
proof -
  define t where "t = s\<lparr>queue := js\<rparr>"
  have r: "reactions t = reactions s" and qt: "queue t = js" and bo: "bodies t = bodies s"
    and ps: "pstates t = pstates s" and n: "next_pid t = next_pid s"
    and wa: "watch t = watch s" and sl: "slot t = slot s"
    by (simp_all add: t_def)
  have jc: "\<And>x. job_ok t x = job_ok s x" by (rule job_ok_cong) (simp_all add: n ps)
  have w: "wf s" using i by (simp add: inv_def)
  have wt: "wf t" using w unfolding wf_def r qt bo ps n wa jc q by simp
  have lt: "live t + (if live_job j then 1 else 0) = live s"
    by (simp add: live_def bodies_in_flight_def qt bo ps q)
  have it: "idle t = idle s" by (rule idle_cong) (simp_all add: wa ps)
  have "inv t" unfolding inv_def using wt lt it invD(2-4)[OF i] by (auto simp: sl)
  then show "inv (s\<lparr>queue := js\<rparr>)" by (simp add: t_def)
  have "job_ok s j" using w q by (simp add: wf_def)
  then show "job_ok (s\<lparr>queue := js\<rparr>) j" using jc by (simp add: t_def)
  show "live (s\<lparr>queue := js\<rparr>) + (if live_job j then 1 else 0) = live s"
    using lt by (simp add: t_def)
  show "idle (s\<lparr>queue := js\<rparr>) = idle s" using it by (simp add: t_def)
  show "live (s\<lparr>queue := js\<rparr>) = 0 \<and> \<not> idle (s\<lparr>queue := js\<rparr>)" if "live_job j"
  proof -
    have "live s = 1 \<and> live t = 0" using lt that invD(2)[OF i] by simp
    moreover have "\<not> idle s" using calculation invD(3)[OF i] by auto
    ultimately show ?thesis using it by (simp add: t_def)
  qed
qed

lemma inv_run_callback:
  assumes i: "inv s" and l: "live s = 0" and ni: "\<not> idle s" and sl: "slot s"
    and hp: "fst p = Handle" and bp: "snd p < next_pid s"
  shows "inv (snd (run_callback b p q s))"
proof -
  have w: "wf s" using i by (simp add: inv_def)
  show ?thesis
    using run_callback_shape[of b p q s]
  proof (elim disjE conjE)
    assume "core (snd (run_callback b p q s)) = core s"
    then show ?thesis using inv_core i by blast
  next
    assume c: "core (snd (run_callback b p q s)) = core (resolve_promise p VWatch s)"
    have "inv (resolve_promise p VWatch s)"
      using w l hp bp _ sl by (rule inv_resolve_handle) (simp add: ni)
    then show ?thesis using inv_core[OF c] by simp
  next
    assume c: "core (snd (run_callback b p q s))
                 = core (promise_then (BodyResult, next_pid s) (KBody p) (with_body s))"
    have "inv (promise_then (BodyResult, next_pid s) (KBody p) (with_body s))"
      using w l hp bp ni sl by (rule inv_then_body)
    then show ?thesis using inv_core[OF c] by simp
  qed
qed

lemma inv_settle_derived:
  assumes i: "inv s" and sl: "slot s" and d: "fst d = Derived" "snd d < next_pid s"
  shows "inv (resolve_promise d v s)" "inv (reject_promise d e s)"
proof -
  have w: "wf s" using i by (simp add: inv_def)
  have k: "fst d \<noteq> BodyResult" using d by simp
  have other: "\<And>r. running (watch s) = Some r \<Longrightarrow> r \<noteq> d"
    using w d by (auto simp: wf_def)
  have i1: "idle (resolve_promise d v s) = idle s"
    using other by (auto simp: idle_def pstates_resolve_other split: option.splits)
  have i2: "idle (reject_promise d e s) = idle s"
    using other by (auto simp: idle_def pstates_reject_other split: option.splits)
  show "inv (resolve_promise d v s)"
    unfolding inv_def i1 live_resolve_derived[OF w d(1)]
    using wf_resolve[OF w d(2)] invD(2,3)[OF i] sl by simp
  show "inv (reject_promise d e s)"
    unfolding inv_def i2 live_reject_other[OF w k]
    using wf_reject[OF w d(2)] invD(2,3)[OF i] sl by simp
qed

lemma inv_then_adopt:
  assumes i: "inv s" and sl: "slot s" and d: "fst d = Derived" "snd d < next_pid s"
    and r: "snd r < next_pid s"
  shows "inv (promise_then r (KAdopt d) s)"
proof -
  have w: "wf s" using i by (simp add: inv_def)
  have "wf (promise_then r (KAdopt d) s)"
    using w r by (rule wf_then) (simp_all add: d)
  moreover have "live (promise_then r (KAdopt d) s) = live s" by (simp add: live_then)
  moreover have "idle (promise_then r (KAdopt d) s) = idle s" by (rule idle_cong) simp_all
  ultimately show ?thesis using invD(2,3)[OF i] sl by (simp add: inv_def)
qed

lemma inv_then_init:
  assumes i: "inv s" and sl: "slot s" and d: "fst d = Derived" "snd d < next_pid s"
    and r: "snd r < next_pid s"
  shows "inv (promise_then r (KInit d) s)"
proof -
  have w: "wf s" using i by (simp add: inv_def)
  have "wf (promise_then r (KInit d) s)"
    using w r by (rule wf_then) (simp_all add: d)
  moreover have "live (promise_then r (KInit d) s) = live s" by (simp add: live_then)
  moreover have "idle (promise_then r (KInit d) s) = idle s" by (rule idle_cong) simp_all
  ultimately show ?thesis using invD(2,3)[OF i] sl by (simp add: inv_def)
qed

lemma inv_enqueue:
  assumes i: "inv s" and j: "job_ok s j" "\<not> live_job j"
  shows "inv (s\<lparr>queue := queue s @ [j]\<rparr>)"
proof -
  define t where "t = s\<lparr>queue := queue s @ [j]\<rparr>"
  have r: "reactions t = reactions s" and qt: "queue t = queue s @ [j]" and bo: "bodies t = bodies s"
    and ps: "pstates t = pstates s" and n: "next_pid t = next_pid s"
    and wa: "watch t = watch s" and sl: "slot t = slot s"
    by (simp_all add: t_def)
  have jc: "\<And>x. job_ok t x = job_ok s x" by (rule job_ok_cong) (simp_all add: n ps)
  have w: "wf s" using i by (simp add: inv_def)
  have wt: "wf t" using w j(1) unfolding wf_def r qt bo ps n wa jc by simp
  have lt: "live t = live s" using j(2) by (simp add: live_def bodies_in_flight_def qt bo ps)
  have it: "idle t = idle s" by (rule idle_cong) (simp_all add: wa ps)
  have "inv t" unfolding inv_def lt it sl using wt i by (simp add: inv_def)
  then show ?thesis by (simp add: t_def)
qed

lemma next_pid_resolve [simp]: "next_pid (resolve_promise p v s) = next_pid s"
  by (simp add: resolve_promise_def)

lemma next_pid_reject [simp]: "next_pid (reject_promise p v s) = next_pid s"
  by (simp add: reject_promise_def)

lemma next_pid_then [simp]: "next_pid (promise_then p k s) = next_pid s"
  by (simp add: promise_then_def split: pstate.splits)

lemma runWatch_pid:
  "snd (fst (runWatch b s)) = next_pid s \<and> next_pid s < next_pid (snd (runWatch b s))"
proof (cases "f (watch s) AND WatchFlagsIsDirty = 0")
  case True
  then show ?thesis by (simp add: runWatch_def promise_resolve_def)
next
  case False
  have 1: "snd (fst (runWatch b s)) = next_pid s"
    using runWatch_unfold[OF False, of b] by auto
  have 2: "next_pid s < next_pid (snd (runWatch b s))"
    using runWatch_shape[OF False, of b]
  proof (elim disjE conjE exE)
    fix q assume "core (snd (runWatch b s))
        = core (promise_then q (KRun (Handle, next_pid s)) (with_handle s))"
    from core_eqD(5)[OF this] show ?thesis by (simp add: with_handle_def)
  next
    fix e assume "core (snd (runWatch b s))
        = core (reject_promise (Handle, next_pid s) e (with_handle s))"
    from core_eqD(5)[OF this] show ?thesis by (simp add: with_handle_def)
  next
    assume "core (snd (runWatch b s))
        = core (resolve_promise (Handle, next_pid s) VWatch (with_handle s))"
    from core_eqD(5)[OF this] show ?thesis by (simp add: with_handle_def)
  next
    assume "core (snd (runWatch b s))
        = core (promise_then (BodyResult, Suc (next_pid s)) (KBody (Handle, next_pid s))
                 (with_body (with_handle s)))"
    from core_eqD(5)[OF this] show ?thesis by (simp add: with_handle_def with_body_def)
  qed
  show ?thesis using 1 2 by simp
qed

lemma slot_runWatch: "slot (snd (runWatch b s)) = slot s"
proof (cases "f (watch s) AND WatchFlagsIsDirty = 0")
  case True
  then show ?thesis by (simp add: runWatch_def promise_resolve_def)
next
  case False
  show ?thesis
    using runWatch_shape[OF False, of b]
  proof (elim disjE conjE exE)
    fix q assume "core (snd (runWatch b s))
        = core (promise_then q (KRun (Handle, next_pid s)) (with_handle s))"
    from core_eqD(7)[OF this] show ?thesis by (simp add: with_handle_def)
  next
    fix e assume "core (snd (runWatch b s))
        = core (reject_promise (Handle, next_pid s) e (with_handle s))"
    from core_eqD(7)[OF this] show ?thesis by (simp add: with_handle_def)
  next
    assume "core (snd (runWatch b s))
        = core (resolve_promise (Handle, next_pid s) VWatch (with_handle s))"
    from core_eqD(7)[OF this] show ?thesis by (simp add: with_handle_def)
  next
    assume "core (snd (runWatch b s))
        = core (promise_then (BodyResult, Suc (next_pid s)) (KBody (Handle, next_pid s))
                 (with_body (with_handle s)))"
    from core_eqD(7)[OF this] show ?thesis by (simp add: with_handle_def with_body_def)
  qed
qed

lemma inv_run_job:
  assumes i: "inv s" and sl: "slot s" and q: "queue s = j # js"
  shows "inv (run_job b j (s\<lparr>queue := js\<rparr>))"
proof -
  define t where "t = s\<lparr>queue := js\<rparr>"
  note pf = pop_facts[OF i q, folded t_def]
  have slt: "slot t" using sl by (simp add: t_def)
  have wt: "wf t" using pf(1) by (simp add: inv_def)
  have "inv (run_job b j t)"
  proof (cases j)
    case (React rq k v)
    have ck: "cont_ok (next_pid t) k" using pf(2) React by simp
    show ?thesis
    proof (cases k)
      case (KRun p)
      have lj: "live_job j" using React KRun by simp
      have hp: "fst p = Handle" "snd p < next_pid t" using ck KRun by simp_all
      have "inv (snd (run_callback b p (Some rq) t))"
        using pf(1) _ _ slt hp by (rule inv_run_callback) (simp_all add: pf(5)[OF lj])
      moreover have "core (run_job b j t) = core (snd (run_callback b p (Some rq) t))"
        by (cases "run_callback b p (Some rq) t")
           (auto simp: run_job_def React KRun core_def split: option.splits)
      ultimately show ?thesis using inv_core by blast
    next
      case (KBody p)
      have lj: "live_job j" using React KBody by simp
      have hp: "fst p = Handle" "snd p < next_pid t" using ck KBody by simp_all
      have "inv (resolve_promise p VWatch t)"
        using wt _ hp _ slt by (rule inv_resolve_handle) (simp_all add: pf(5)[OF lj])
      moreover have "core (body_callback p v t) = core (resolve_promise p VWatch t)"
        by (rule body_callback_core) simp
      ultimately have "inv (body_callback p v t)" using inv_core by blast
      then show ?thesis by (simp add: run_job_def React KBody)
    next
      case (KInit d)
      have d: "fst d = Derived" "snd d < next_pid t" using ck KInit by simp_all
      define rw where "rw = runWatch b t"
      have ir: "inv (snd rw)" unfolding rw_def using pf(1) slt by (rule inv_runWatch)
      have pid: "snd (fst rw) = next_pid t" "next_pid t < next_pid (snd rw)"
        using runWatch_pid[of b t] by (simp_all add: rw_def)
      have "job_ok (snd rw) (Thenable d (fst rw))" using d pid by simp
      then have "inv ((snd rw)\<lparr>queue := queue (snd rw) @ [Thenable d (fst rw)]\<rparr>)"
        using ir by (intro inv_enqueue) simp_all
      moreover have "run_job b j t = (snd rw)\<lparr>queue := queue (snd rw) @ [Thenable d (fst rw)]\<rparr>"
        by (simp add: run_job_def React KInit rw_def case_prod_beta)
      ultimately show ?thesis by simp
    next
      case (KAdopt d)
      have d: "fst d = Derived" "snd d < next_pid t" using ck KAdopt by simp_all
      show ?thesis
        using inv_settle_derived(1)[OF pf(1) slt d] by (simp add: run_job_def React KAdopt)
    qed
  next
    case (PassReject d e)
    have d: "fst d = Derived" "snd d < next_pid t" using pf(2) PassReject by simp_all
    show ?thesis
      using inv_settle_derived(2)[OF pf(1) slt d] by (simp add: run_job_def PassReject)
  next
    case (Thenable d r)
    have d: "fst d = Derived" "snd d < next_pid t" "snd r < next_pid t"
      using pf(2) Thenable by simp_all
    show ?thesis
      using inv_then_adopt[OF pf(1) slt d] by (simp add: run_job_def Thenable)
  qed
  then show ?thesis by (simp add: t_def)
qed

lemma inv_tick:
  assumes i: "inv s" and sl: "slot s"
  shows "inv (tick b s)"
proof (cases "queue s")
  case Nil
  then show ?thesis using i by (simp add: tick_def)
next
  case (Cons j js)
  then show ?thesis using inv_run_job[OF i sl Cons] by (simp add: tick_def)
qed

lemma inv_settle_body:
  assumes i: "inv s" and sl: "slot s"
  shows "inv (settle_body bp out s)"
proof (cases "bp \<in> set (bodies s)")
  case False
  then show ?thesis using i by (simp add: settle_body_def)
next
  case True
  have w: "wf s" using i by (simp add: inv_def)
  have k: "fst bp = BodyResult" "snd bp < next_pid s" using w True by (auto simp: wf_def)
  have other: "\<And>r. running (watch s) = Some r \<Longrightarrow> r \<noteq> bp"
    using w k by (auto simp: wf_def)
  show ?thesis
  proof (cases out)
    case (Fulfil v)
    have i1: "idle (resolve_promise bp v s) = idle s"
      using other by (auto simp: idle_def pstates_resolve_other split: option.splits)
    have "inv (resolve_promise bp v s)"
      unfolding inv_def i1
      using wf_resolve[OF w k(2)] live_resolve_body[OF w True, of v] invD(2,3)[OF i] sl
      by auto
    then show ?thesis using True Fulfil by (simp add: settle_body_def)
  next
    case (Reject e)
    have i2: "idle (reject_promise bp e s) = idle s"
      using other by (auto simp: idle_def pstates_reject_other split: option.splits)
    have "inv (reject_promise bp e s)"
      unfolding inv_def i2
      using wf_reject[OF w k(2)] live_reject_body[OF w, of bp e] invD(2,3)[OF i] sl
      by auto
    then show ?thesis using True Reject by (simp add: settle_body_def)
  qed
qed

text \<open>Creating the descriptor.\<close>

lemma inv_create:
  assumes i: "inv s" and ns: "\<not> slot s"
    and e: "reactions t = reactions s" "queue t = queue s" "bodies t = bodies s"
      "pstates t = pstates s" "next_pid t = next_pid s" "running (watch t) = None"
  shows "inv t"
proof -
  have w: "wf s" using i by (simp add: inv_def)
  have jc: "\<And>x. job_ok t x = job_ok s x" by (rule job_ok_cong) (simp_all add: e)
  have wt: "wf t" using w unfolding wf_def e jc by simp
  have "live t = live s" by (simp add: live_def bodies_in_flight_def e)
  then have "live t = 0" using invD(4)[OF i ns] by simp
  then show ?thesis using wt by (simp add: inv_def)
qed

lemma inv_restore: "inv s \<Longrightarrow> inv (restore fl s)"
proof (cases "slot s")
  case True
  then show "inv s \<Longrightarrow> inv (restore fl s)" by (simp add: restore_def)
next
  case False
  assume i: "inv s"
  show "inv (restore fl s)"
    by (rule inv_create[OF i False]) (simp_all add: restore_def False)
qed

lemma core_useRunWatch [simp]: "core (useRunWatch r s) = core s"
  by (simp add: useRunWatch_def core_def split: option.splits run_opt.splits)

lemma inv_useClientEffectQrl: "inv s \<Longrightarrow> inv (useClientEffectQrl q e n opts ob s)"
proof (cases "slot s")
  case True
  then show "inv s \<Longrightarrow> inv (useClientEffectQrl q e n opts ob s)"
    by (simp add: useClientEffectQrl_def)
next
  case False
  assume i: "inv s"
  define w where "w = \<lparr>qrl = q, el = e, f = WatchFlagsIsEffect, i = n,
                  destroy = None, running = None\<rparr>"
  define s1 where "s1 = s\<lparr>watch := w, slot := True, watches := watches s @ [w]\<rparr>"
  have i1: "inv s1" by (rule inv_create[OF i False]) (simp_all add: s1_def w_def)
  define s2 where "s2 = useRunWatch (Some (case opts of None \<Rightarrow> RunVisible | Some r \<Rightarrow> r)) s1"
  have i2: "inv s2" using i1 inv_core[of s2 s1] by (simp add: s2_def)
  have "core (s2\<lparr>observed := True\<rparr>) = core s2" by (simp add: core_def)
  then have i3: "inv (s2\<lparr>observed := True\<rparr>)" using i2 inv_core by blast
  have "useClientEffectQrl q e n opts ob s = (if ob then s2\<lparr>observed := True\<rparr> else s2)"
    using False by (simp add: useClientEffectQrl_def Let_def s2_def s1_def w_def)
  then show "inv (useClientEffectQrl q e n opts ob s)" using i2 i3 by simp
qed

lemma inv_bump:
  assumes i: "inv s"
  shows "inv (s\<lparr>next_pid := Suc (next_pid s)\<rparr>)"
proof -
  define t where "t = s\<lparr>next_pid := Suc (next_pid s)\<rparr>"
  have r: "reactions t = reactions s" and q: "queue t = queue s" and bo: "bodies t = bodies s"
    and ps: "pstates t = pstates s" and n: "next_pid t = Suc (next_pid s)"
    and wa: "watch t = watch s" and sl: "slot t = slot s"
    by (simp_all add: t_def)
  have w: "wf s" using i by (simp add: inv_def)
  have 1: "\<forall>x \<in> set (reactions t). reaction_ok (next_pid t) x"
    using w by (auto simp: wf_def r n intro: reaction_ok_mono)
  have 2: "\<forall>j \<in> set (queue t). job_ok t j"
  proof
    fix j assume "j \<in> set (queue t)"
    then have "job_ok s j" using w by (simp add: wf_def q)
    then show "job_ok t j" by (rule job_ok_mono) (simp_all add: n ps)
  qed
  have 3: "\<forall>bp \<in> set (bodies t). fst bp = BodyResult \<and> snd bp < next_pid t"
    using w by (auto simp: wf_def bo n)
  have 4: "\<forall>p'. next_pid t \<le> snd p' \<longrightarrow> pstates t p' = Pending"
    using w by (auto simp: wf_def n ps)
  have 5: "\<forall>r. running (watch t) = Some r \<longrightarrow>
             fst r = Handle \<and> snd r < next_pid t \<and> (\<forall>p'. (r, KRun p') \<notin> set (reactions t))"
    using w by (auto simp: wf_def wa n r)
  have 6: "distinct (map fst (filter (\<lambda>x. is_run (snd x)) (reactions t)))"
    using w by (simp add: wf_def r)
  have 7: "distinct (map fst (filter (\<lambda>x. is_bodyk (snd x)) (reactions t)))"
    using w by (simp add: wf_def r)
  have wt: "wf t" unfolding wf_def using 1 2 3 4 5 6 7 by blast
  have lt: "live t = live s" by (simp add: live_def bodies_in_flight_def q bo ps)
  have it: "idle t = idle s" by (rule idle_cong) (simp_all add: wa ps)
  have "inv t" unfolding inv_def lt it sl using wt i by (simp add: inv_def)
  then show ?thesis by (simp add: t_def)
qed

lemma inv_useWatchQrl: "inv s \<Longrightarrow> inv (useWatchQrl q e n srv opts s)"
proof (cases "slot s")
  case True
  then show "inv s \<Longrightarrow> inv (useWatchQrl q e n srv opts s)"
    by (simp add: useWatchQrl_def)
next
  case False
  assume i: "inv s"
  define w where "w = \<lparr>qrl = q, el = e, f = WatchFlagsIsDirty OR WatchFlagsIsWatch, i = n,
                  destroy = None, running = None\<rparr>"
  define s1 where "s1 = s\<lparr>watch := w, slot := True, watches := watches s @ [w]\<rparr>"
  have i1: "inv s1" by (rule inv_create[OF i False]) (simp_all add: s1_def w_def)
  define p0 where "p0 = (Resolved, next_pid s1)"
  define s2 where "s2 = snd (promise_resolve VUndefined s1)"
  have i2: "inv s2" unfolding s2_def using i1 by (rule inv_promise_resolve)
  have n2: "next_pid s2 = Suc (next_pid s1)" and sl2: "slot s2"
    by (simp_all add: s2_def promise_resolve_def s1_def)
  define d where "d = (Derived, next_pid s2)"
  define s3 where "s3 = s2\<lparr>next_pid := Suc (next_pid s2)\<rparr>"
  have i3: "inv s3" unfolding s3_def using i2 by (rule inv_bump)
  have sl3: "slot s3" using sl2 by (simp add: s3_def)
  define s4 where "s4 = promise_then p0 (KInit d) s3"
  have i4: "inv s4" unfolding s4_def
    using i3 sl3 by (rule inv_then_init) (simp_all add: d_def p0_def s3_def n2)
  define s5 where "s5 = s4\<lparr>waitOn := waitOn s4 @ [d]\<rparr>"
  have "core s5 = core s4" by (simp add: s5_def core_def)
  then have i5: "inv s5" using i4 inv_core by blast
  have i6: "inv (useRunWatch opts s5)" using i5 inv_core[of "useRunWatch opts s5" s5] by simp
  have "useWatchQrl q e n srv opts s = (if srv then useRunWatch opts s5 else s5)"
    using False
    by (simp add: useWatchQrl_def Let_def promise_resolve_def new_promise_def
          s5_def s4_def s3_def s2_def s1_def w_def d_def p0_def)
  then show "inv (useWatchQrl q e n srv opts s)" using i5 i6 by simp
qed

lemma inv_blank: "inv blank"
  by (simp add: inv_def wf_def live_def bodies_in_flight_def blank_def)

lemma inv_step: "inv s \<Longrightarrow> inv (step inp s)"
proof (cases inp)
  case (InUseWatchQrl q e n srv opts)
  then show "inv s \<Longrightarrow> inv (step inp s)" by (simp add: inv_useWatchQrl)
next
  case (InUseClientEffectQrl q e n opts ob)
  then show "inv s \<Longrightarrow> inv (step inp s)" by (simp add: inv_useClientEffectQrl)
next
  case (InRestore fl)
  then show "inv s \<Longrightarrow> inv (step inp s)" by (simp add: inv_restore)
next
  case (InRunWatch b)
  then show "inv s \<Longrightarrow> inv (step inp s)" by (simp add: inv_runWatch)
next
  case InNotify
  then show "inv s \<Longrightarrow> inv (step inp s)" using inv_core[OF core_notify] by simp
next
  case (InTick b)
  then show "inv s \<Longrightarrow> inv (step inp s)" by (simp add: inv_tick)
next
  case (InSettle bp out)
  then show "inv s \<Longrightarrow> inv (step inp s)" by (simp add: inv_settle_body)
next
  case (InDestroy c)
  then show "inv s \<Longrightarrow> inv (step inp s)" using inv_core[OF core_destroyWatch] by simp
qed

lemma inv_fold: "inv s \<Longrightarrow> inv (fold step ins s)"
  by (induction ins arbitrary: s) (simp_all add: inv_step)

lemma inv_run_inputs: "inv (run_inputs ins blank)"
  unfolding run_inputs_def using inv_blank by (rule inv_fold)

lemma bodies_in_flight_le1: "inv s \<Longrightarrow> length (bodies_in_flight s) \<le> 1"
  by (simp add: inv_def live_def)

lemma log_run_callback_start:
  assumes "EvRunStart p' q' \<in> set (log (snd (run_callback b p q s)))"
  shows "(p' = p \<and> q' = q) \<or> EvRunStart p' q' \<in> set (log s)"
proof (cases "destroy (watch s)")
  case None
  then show ?thesis using assms by (auto simp: run_callback_log cleanupWatch_None)
next
  case (Some d)
  then show ?thesis
    using assms by (cases "fn_throws d") (auto simp: run_callback_log cleanupWatch_Some)
qed

lemma log_runWatch_start:
  assumes "EvRunStart p' (Some q') \<in> set (log (snd (runWatch b s)))"
  shows "EvRunStart p' (Some q') \<in> set (log s)"
proof (cases "f (watch s) AND WatchFlagsIsDirty = 0")
  case True
  then show ?thesis using assms by (simp add: runWatch_def promise_resolve_def)
next
  case False
  show ?thesis
  proof (cases "running (watch s)")
    case (Some r)
    then show ?thesis using assms runWatch_suspended(2)[OF False Some, of b] by simp
  next
    case None
    define s2 where
      "s2 = s\<lparr>watch := (watch s)\<lparr>f := f (watch s) AND NOT WatchFlagsIsDirty\<rparr>,
               next_pid := Suc (next_pid s)\<rparr>"
    define p where "p = (Handle, next_pid s)"
    have "log (executor b p s2) = log (snd (run_callback b p None s2))"
      using None
      by (cases "run_callback b p None s2")
         (auto simp: executor_alt reject_log s2_def split: option.splits)
    moreover have "log (snd (runWatch b s)) = log (executor b p s2)"
      using False by (simp add: runWatch_def Let_def new_promise_def s2_def p_def)
    ultimately have "EvRunStart p' (Some q') \<in> set (log (snd (run_callback b p None s2)))"
      using assms by simp
    then have "EvRunStart p' (Some q') \<in> set (log s2)"
      using log_run_callback_start by blast
    then show ?thesis by (simp add: s2_def)
  qed
qed

lemma log_run_job_start:
  assumes "EvRunStart p' (Some q') \<in> set (log (run_job b j s))"
  shows "EvRunStart p' (Some q') \<in> set (log s) \<or> (\<exists>v. j = React q' (KRun p') v)"
proof (cases j)
  case (React rq k v)
  show ?thesis
  proof (cases k)
    case (KRun p)
    define rc where "rc = run_callback b p (Some rq) s"
    have "set (log (run_job b j s)) \<subseteq> set (log (snd rc)) \<union> range EvUnhandled"
      by (cases rc) (auto simp: run_job_def React KRun rc_def split: option.splits)
    then have "EvRunStart p' (Some q') \<in> set (log (snd rc))" using assms by auto
    then show ?thesis
      unfolding rc_def using log_run_callback_start React KRun by blast
  next
    case (KBody p)
    then show ?thesis using assms React by (simp add: run_job_def body_callback_log)
  next
    case (KInit d)
    have "log (run_job b j s) = log (snd (runWatch b s))"
      by (simp add: run_job_def React KInit case_prod_beta)
    then show ?thesis using assms log_runWatch_start by simp
  next
    case (KAdopt d)
    then show ?thesis using assms React by (simp add: run_job_def resolve_log)
  qed
next
  case (PassReject d e)
  then show ?thesis using assms by (simp add: run_job_def reject_log)
next
  case (Thenable d r)
  then show ?thesis using assms by (simp add: run_job_def then_log)
qed

lemma log_useWatchQrl: "log (useWatchQrl q e n srv opts s) = log s"
  by (simp add: useWatchQrl_def Let_def promise_resolve_def new_promise_def then_log
        useRunWatch_def split: option.splits run_opt.splits)

lemma log_useClientEffectQrl: "log (useClientEffectQrl q e n opts ob s) = log s"
  by (simp add: useClientEffectQrl_def Let_def useRunWatch_def split: option.splits run_opt.splits)

lemma log_destroyWatch_start:
  "EvRunStart p q \<in> set (log (snd (destroyWatch c s))) \<Longrightarrow> EvRunStart p q \<in> set (log s)"
  by (cases "destroy (watch s)"; cases "fn_throws (the (destroy (watch s)))")
     (auto simp: destroyWatch_def Let_def cleanupWatch_Some cleanupWatch_None split: if_splits)

lemma log_step_start:
  assumes "EvRunStart p (Some q) \<in> set (log (step inp s))"
  shows "EvRunStart p (Some q) \<in> set (log s)
       \<or> (\<exists>b v js. inp = InTick b \<and> queue s = React q (KRun p) v # js)"
proof (cases inp)
  case (InUseWatchQrl q e n srv opts)
  then show ?thesis using assms by (simp add: log_useWatchQrl)
next
  case (InUseClientEffectQrl q e n opts ob)
  then show ?thesis using assms by (simp add: log_useClientEffectQrl)
next
  case (InRestore fl)
  then show ?thesis using assms by (simp add: restore_def split: if_splits)
next
  case (InRunWatch b)
  then show ?thesis using assms log_runWatch_start by (auto split: if_splits)
next
  case InNotify
  then show ?thesis using assms by (simp add: notify_def split: if_splits)
next
  case (InTick b)
  show ?thesis
  proof (cases "queue s")
    case Nil
    then show ?thesis using assms InTick by (simp add: tick_def split: if_splits)
  next
    case (Cons j js)
    show ?thesis
    proof (cases "slot s")
      case True
      then have "EvRunStart p (Some q) \<in> set (log (run_job b j (s\<lparr>queue := js\<rparr>)))"
        using assms InTick Cons by (simp add: tick_def)
      then have "EvRunStart p (Some q) \<in> set (log (s\<lparr>queue := js\<rparr>))
               \<or> (\<exists>v. j = React q (KRun p) v)"
        by (rule log_run_job_start)
      then show ?thesis using InTick Cons by auto
    next
      case False
      then show ?thesis using assms InTick by simp
    qed
  qed
next
  case (InSettle bp out)
  then show ?thesis
    using assms
    by (cases out) (auto simp: settle_body_def resolve_log reject_log split: if_splits)
next
  case (InDestroy c)
  then show ?thesis using assms log_destroyWatch_start by (auto split: if_splits)
qed

lemma run_job_settled:
  assumes "inv s" and "queue s = React q k v # js"
  shows "pstates s q \<noteq> Pending"
  using assms by (simp add: inv_def wf_def)

lemmas eval_defs =
  run_inputs_def blank_def restore_def runWatch_def executor_alt run_callback_alt
  cleanupWatch_def invoke_body_def clearSub_def new_promise_def promise_resolve_def
  promise_then_def resolve_promise_def reject_promise_def body_callback_def notify_def
  settle_body_def tick_def run_job_def fulfil_jobs_def reject_jobs_def Let_def
  WatchFlagsIsDirty_def WatchFlagsIsWatch_def WatchFlagsIsEffect_def bodies_in_flight_def
  useWatchQrl_def useClientEffectQrl_def useRunWatch_def setup_waiting_def

lemma two_runs_state:
  "queue (run_inputs two_runs blank) = [React (Handle, 0) (KRun (Handle, 2)) VWatch]"
  "pstates (run_inputs two_runs blank) (Handle, 0) = Fulfilled VWatch"
  "log (run_inputs two_runs blank) = [EvRunStart (Handle, 0) None, EvClearSub, EvBody 0]"
  "log (step (InTick (Body [] (Return VUndefined))) (run_inputs two_runs blank))
     = [EvRunStart (Handle, 0) None, EvClearSub, EvBody 0,
        EvRunStart (Handle, 2) (Some (Handle, 0)), EvClearSub, EvBody 0]"
  "slot (run_inputs two_runs blank)"
  by (simp_all add: two_runs_def eval_defs)

lemma first_run_state:
  "f (watch (run_inputs first_run blank)) AND WatchFlagsIsDirty \<noteq> 0"
  "running (watch (run_inputs first_run blank)) = Some (Handle, 0)"
  "pstates (run_inputs first_run blank) (Handle, 0) = Pending"
  "next_pid (run_inputs first_run blank) = 2"
  "reactions (run_inputs first_run blank) = [((BodyResult, 1), KBody (Handle, 0))]"
  "log (run_inputs first_run blank) = [EvRunStart (Handle, 0) None, EvClearSub, EvBody 0]"
  by (simp_all add: first_run_def eval_defs)

text \<open>
  Claim C1.  In every execution from the blank world: a step in which a run callback
  starts that had to wait for the handle \<open>q\<close> of the previous run (the event
  \<open>EvRunStart p (Some q)\<close>, which precedes the cleanup and the body of that run) is taken
  from a world in which \<open>q\<close> is already settled; and at every moment at most one body
  promise is pending, that is, at most one body execution is in flight.  When
  \<^verbatim>\<open>runWatch\<close> is called on a dirty descriptor whose running handle \<open>q'\<close> is pending, the
  call starts nothing: it logs no call, queues no microtask and only registers the run
  callback as a reaction to \<open>q'\<close>.
\<close>

theorem single_flight:
  "(EvRunStart p (Some q) \<in> set (log (step inp (run_inputs ins blank)))
      \<longrightarrow> EvRunStart p (Some q) \<in> set (log (run_inputs ins blank))
          \<or> pstates (run_inputs ins blank) q \<noteq> Pending)
   \<and> length (bodies_in_flight (run_inputs ins blank)) \<le> 1
   \<and> (f (watch s) AND WatchFlagsIsDirty \<noteq> 0 \<and> running (watch s) = Some q'
        \<and> pstates s q' = Pending
      \<longrightarrow> log (snd (runWatch b s)) = log s
          \<and> queue (snd (runWatch b s)) = queue s
          \<and> reactions (snd (runWatch b s)) = reactions s @ [(q', KRun (Handle, next_pid s))])"
proof (intro conjI impI)
  assume "EvRunStart p (Some q) \<in> set (log (step inp (run_inputs ins blank)))"
  then have "EvRunStart p (Some q) \<in> set (log (run_inputs ins blank))
       \<or> (\<exists>b v js. inp = InTick b \<and> queue (run_inputs ins blank) = React q (KRun p) v # js)"
    by (rule log_step_start)
  then show "EvRunStart p (Some q) \<in> set (log (run_inputs ins blank))
          \<or> pstates (run_inputs ins blank) q \<noteq> Pending"
    using run_job_settled[OF inv_run_inputs] by blast
next
  show "length (bodies_in_flight (run_inputs ins blank)) \<le> 1"
    using inv_run_inputs by (rule bodies_in_flight_le1)
next
  assume a: "f (watch s) AND WatchFlagsIsDirty \<noteq> 0 \<and> running (watch s) = Some q'
        \<and> pstates s q' = Pending"
  then show "log (snd (runWatch b s)) = log s"
    using runWatch_suspended(2) by blast
  show "queue (snd (runWatch b s)) = queue s"
    using a by (simp add: runWatch_def Let_def new_promise_def executor_alt promise_then_def)
  show "reactions (snd (runWatch b s)) = reactions s @ [(q', KRun (Handle, next_pid s))]"
    using a by (simp add: runWatch_def Let_def new_promise_def executor_alt promise_then_def)
qed

theorem single_flight_witness:
  "EvRunStart (Handle, 2) (Some (Handle, 0))
     \<in> set (log (step (InTick (Body [] (Return VUndefined))) (run_inputs two_runs blank)))
   \<and> EvRunStart (Handle, 2) (Some (Handle, 0)) \<notin> set (log (run_inputs two_runs blank))
   \<and> pstates (run_inputs two_runs blank) (Handle, 0) \<noteq> Pending
   \<and> length (bodies_in_flight (run_inputs two_runs blank)) \<le> 1
   \<and> f (watch (run_inputs first_run blank)) AND WatchFlagsIsDirty \<noteq> 0
   \<and> running (watch (run_inputs first_run blank)) = Some (Handle, 0)
   \<and> pstates (run_inputs first_run blank) (Handle, 0) = Pending
   \<and> log (snd (runWatch (Body [] (Return VUndefined)) (run_inputs first_run blank)))
       = [EvRunStart (Handle, 0) None, EvClearSub, EvBody 0]
   \<and> reactions (snd (runWatch (Body [] (Return VUndefined)) (run_inputs first_run blank)))
       = [((BodyResult, 1), KBody (Handle, 0)), ((Handle, 0), KRun (Handle, 2))]"
proof -
  note sf = single_flight[of "(Handle, 2)" "(Handle, 0)" "InTick (Body [] (Return VUndefined))"
          two_runs "run_inputs first_run blank" "(Handle, 0)" "Body [] (Return VUndefined)"]
  have 1: "EvRunStart (Handle, 2) (Some (Handle, 0))
     \<in> set (log (step (InTick (Body [] (Return VUndefined))) (run_inputs two_runs blank)))"
    unfolding two_runs_state(4) by simp
  have 2: "EvRunStart (Handle, 2) (Some (Handle, 0)) \<notin> set (log (run_inputs two_runs blank))"
    unfolding two_runs_state(3) by simp
  have 3: "pstates (run_inputs two_runs blank) (Handle, 0) \<noteq> Pending"
    using sf 1 2 by blast
  have 4: "length (bodies_in_flight (run_inputs two_runs blank)) \<le> 1"
    using sf by blast
  have 5: "f (watch (run_inputs first_run blank)) AND WatchFlagsIsDirty \<noteq> 0
    \<and> running (watch (run_inputs first_run blank)) = Some (Handle, 0)
    \<and> pstates (run_inputs first_run blank) (Handle, 0) = Pending"
    using first_run_state(1-3) by blast
  have 6: "log (snd (runWatch (Body [] (Return VUndefined)) (run_inputs first_run blank)))
             = log (run_inputs first_run blank)
    \<and> reactions (snd (runWatch (Body [] (Return VUndefined)) (run_inputs first_run blank)))
             = reactions (run_inputs first_run blank)
                 @ [((Handle, 0), KRun (Handle, next_pid (run_inputs first_run blank)))]"
    using sf 5 by blast
  show ?thesis
    using 1 2 3 4 5 6 by (simp add: first_run_state(4-6))
qed

subsection \<open>The registrars and setup\<close>




subsection \<open>The dirty flag after a run\<close>

lemma dirty_or_idem: "(x OR WatchFlagsIsDirty) OR WatchFlagsIsDirty = (x OR WatchFlagsIsDirty :: flags)"
  by (simp add: bit_eq_iff bit_or_iff)

lemma track_f: "f (watch (snd (track obj pr s))) = f (watch s)"
  by (simp add: track_def addSub_def Let_def split: option.splits)

lemma track_throws_iff: "(\<exists>e. fst (track obj pr s) = Inl e) = (getProxyTarget obj = None)"
  by (cases "getProxyTarget obj") (simp_all add: track_def assertDefined_def Let_def)

lemma run_acts_f:
  "f (watch (snd (run_acts as s))) =
     (if reaches_write as then f (watch s) OR WatchFlagsIsDirty else f (watch s))"
proof (induction as s rule: run_acts.induct)
  case (1 s)
  then show ?case by simp
next
  case (2 obj pr rest s)
  obtain r s' where t: "track obj pr s = (r, s')" by (cases "track obj pr s")
  have fs: "f (watch s') = f (watch s)" using track_f[of obj pr s] t by simp
  show ?case
  proof (cases r)
    case (Inl e)
    then have "getProxyTarget obj = None" using track_throws_iff[of obj pr s] t by auto
    then show ?thesis using t Inl fs by simp
  next
    case (Inr v)
    then have "getProxyTarget obj \<noteq> None" using track_throws_iff[of obj pr s] t by auto
    then show ?thesis using t Inr fs 2 by simp
  qed
next
  case (3 rest s)
  then show ?case by (simp add: notify_def dirty_or_idem)
qed

lemma invoke_body_f:
  "f (watch (snd (invoke_body b s))) =
     (if reaches_write (acts b) then f (watch s) OR WatchFlagsIsDirty else f (watch s))"
proof -
  define s1 where "s1 = clearSub s\<lparr>log := log (clearSub s) @ [EvBody (f (watch (clearSub s)))]\<rparr>"
  have f1: "f (watch s1) = f (watch s)" by (simp add: s1_def clearSub_def)
  obtain e s2 where ra: "run_acts (acts b) s1 = (e, s2)" by (cases "run_acts (acts b) s1")
  have f2: "f (watch s2) = (if reaches_write (acts b) then f (watch s) OR WatchFlagsIsDirty else f (watch s))"
    using run_acts_f[of "acts b" s1] ra f1 by simp
  have "f (watch (snd (invoke_body b s))) = f (watch s2)"
    using ra unfolding invoke_body_def Let_def s1_def[symmetric]
    by (simp add: new_promise_def split: option.splits body_end.splits)
  then show ?thesis using f2 by simp
qed

lemma run_callback_f:
  "f (watch (snd (run_callback b p q s))) =
     (if reaches_write (acts b) then f (watch s) OR WatchFlagsIsDirty else f (watch s))"
proof -
  define s0 where "s0 = s\<lparr>log := log s @ [EvRunStart p q]\<rparr>"
  obtain s1 where c: "cleanupWatch s0 = (None, s1)"
    using cleanupWatch_fst[of s0] by (cases "cleanupWatch s0") simp
  have f1: "f (watch s1) = f (watch s)" using cleanupWatch_f[of s0] c by (simp add: s0_def)
  obtain r s2 where ib: "invoke_body b s1 = (r, s2)" by (cases "invoke_body b s1")
  have f2: "f (watch s2) = (if reaches_write (acts b) then f (watch s) OR WatchFlagsIsDirty else f (watch s))"
    using invoke_body_f[of b s1] ib f1 by simp
  have "f (watch (snd (run_callback b p q s))) = f (watch s2)"
    unfolding run_callback_unfold[OF c[unfolded s0_def] ib]
    by (simp add: body_callback_f then_watch split: sum.splits value_or_promise.splits)
  then show ?thesis using f2 by simp
qed

lemma run_job_KRun_f:
  "f (watch (run_job b (React q (KRun p) v) s)) =
     (if reaches_write (acts b) then f (watch s) OR WatchFlagsIsDirty else f (watch s))"
proof -
  have "f (watch (run_job b (React q (KRun p) v) s)) = f (watch (snd (run_callback b p (Some q) s)))"
    by (cases "run_callback b p (Some q) s") (auto simp: run_job_def split: option.splits)
  then show ?thesis by (simp add: run_callback_f)
qed

lemma run_job_KBody_f: "f (watch (run_job b (React q (KBody p) v) s)) = f (watch s)"
  by (simp add: run_job_def body_callback_f)

lemma runWatch_immediate_f:
  assumes "f (watch s) AND WatchFlagsIsDirty \<noteq> 0" and "running (watch s) = None"
  shows "f (watch (snd (runWatch b s))) =
           (if reaches_write (acts b)
            then (f (watch s) AND NOT WatchFlagsIsDirty) OR WatchFlagsIsDirty
            else f (watch s) AND NOT WatchFlagsIsDirty)"
proof -
  define s2 where
    "s2 = s\<lparr>watch := (watch s)\<lparr>f := f (watch s) AND NOT WatchFlagsIsDirty\<rparr>,
             next_pid := Suc (next_pid s)\<rparr>"
  define p where "p = (Handle, next_pid s)"
  have f2: "f (watch s2) = f (watch s) AND NOT WatchFlagsIsDirty" by (simp add: s2_def)
  have "f (watch (executor b p s2)) = f (watch (snd (run_callback b p None s2)))"
    using assms(2)
    by (cases "run_callback b p None s2")
       (auto simp: executor_alt reject_watch s2_def split: option.splits)
  moreover have "f (watch (snd (runWatch b s))) = f (watch (executor b p s2))"
    using assms(1) by (simp add: runWatch_def Let_def new_promise_def s2_def p_def)
  ultimately show ?thesis by (simp add: run_callback_f f2)
qed

lemma or_dirty_is_dirty: "(x OR WatchFlagsIsDirty) AND WatchFlagsIsDirty \<noteq> (0 :: flags)"
proof -
  have "(x OR WatchFlagsIsDirty) AND WatchFlagsIsDirty = WatchFlagsIsDirty"
    by (simp add: bit_eq_iff bit_and_iff bit_or_iff)
  moreover have "WatchFlagsIsDirty \<noteq> 0" by (simp add: WatchFlagsIsDirty_def)
  ultimately show ?thesis by simp
qed

text \<open>Only \<^verbatim>\<open>runWatch\<close> clears IS_DIRTY.\<close>

lemma cleanup_keeps_dirty:
  "(x AND NOT WatchFlagsIsCleanup) AND WatchFlagsIsDirty = x AND WatchFlagsIsDirty"
proof -
  have "NOT WatchFlagsIsCleanup AND WatchFlagsIsDirty = WatchFlagsIsDirty"
    by (simp add: WatchFlagsIsCleanup_def WatchFlagsIsDirty_def)
  then show ?thesis by (metis and.assoc)
qed

lemma destroyWatch_dirty:
  "f (watch (snd (destroyWatch c s))) AND WatchFlagsIsDirty = f (watch s) AND WatchFlagsIsDirty"
  by (cases "destroy (watch s)")
     (simp_all add: destroyWatch_def Let_def cleanupWatch_Some cleanupWatch_None call_fn_def
        cleanup_keeps_dirty)

lemma run_job_dirty:
  assumes d: "f (watch s) AND WatchFlagsIsDirty \<noteq> 0"
    and k: "\<And>q d v. j \<noteq> React q (KInit d) v"
  shows "f (watch (run_job b j s)) AND WatchFlagsIsDirty \<noteq> 0"
proof (cases j)
  case (React q k' v)
  show ?thesis
  proof (cases k')
    case (KRun p)
    then show ?thesis using React run_job_KRun_dirty[OF d] by simp
  next
    case (KBody p)
    then show ?thesis using React run_job_KBody_dirty[OF d] by simp
  next
    case (KInit x)
    then show ?thesis using React k by simp
  next
    case (KAdopt x)
    then show ?thesis using React d by (simp add: run_job_def resolve_watch)
  qed
next
  case (PassReject x e)
  then show ?thesis using d by (simp add: run_job_def reject_watch)
next
  case (Thenable x r)
  then show ?thesis using d by (simp add: run_job_def then_watch)
qed

lemma dirty_until_runWatch:
  assumes sl: "slot s" and d: "f (watch s) AND WatchFlagsIsDirty \<noteq> 0"
    and c: "f (watch (step inp s)) AND WatchFlagsIsDirty = 0"
  shows "(\<exists>b. inp = InRunWatch b)
       \<or> (\<exists>b q x v js. inp = InTick b \<and> queue s = React q (KInit x) v # js)"
proof (cases inp)
  case (InUseWatchQrl q e n srv opts)
  then show ?thesis using sl d c by (simp add: useWatchQrl_def)
next
  case (InUseClientEffectQrl q e n opts ob)
  then show ?thesis using sl d c by (simp add: useClientEffectQrl_def)
next
  case (InRestore fl)
  then show ?thesis using sl d c by (simp add: restore_def)
next
  case (InRunWatch b)
  then show ?thesis by simp
next
  case InNotify
  then show ?thesis using sl c notify_dirty[of s] by simp
next
  case (InTick b)
  show ?thesis
  proof (cases "queue s")
    case Nil
    then show ?thesis using InTick sl d c by (simp add: tick_def)
  next
    case (Cons j js)
    have e: "step inp s = run_job b j (s\<lparr>queue := js\<rparr>)"
      using InTick sl Cons by (simp add: tick_def)
    have d': "f (watch (s\<lparr>queue := js\<rparr>)) AND WatchFlagsIsDirty \<noteq> 0" using d by simp
    have "\<exists>q x v. j = React q (KInit x) v"
    proof (rule ccontr)
      assume "\<not> (\<exists>q x v. j = React q (KInit x) v)"
      then have "\<And>q x v. j \<noteq> React q (KInit x) v" by blast
      then have "f (watch (run_job b j (s\<lparr>queue := js\<rparr>))) AND WatchFlagsIsDirty \<noteq> 0"
        by (rule run_job_dirty[OF d'])
      then show False using c e by simp
    qed
    then show ?thesis using InTick Cons by blast
  qed
next
  case (InSettle bp out)
  have "watch (settle_body bp out s) = watch s"
    by (cases out) (simp_all add: settle_body_def resolve_watch reject_watch)
  then show ?thesis using InSettle sl d c by simp
next
  case (InDestroy c')
  then show ?thesis using sl d c by (simp add: destroyWatch_dirty)
qed

lemma restored_dirty_state:
  "f (watch (run_inputs restored_dirty blank)) AND WatchFlagsIsDirty \<noteq> 0"
  "running (watch (run_inputs restored_dirty blank)) = None"
  "f (watch (run_inputs restored_dirty blank)) = 6"
  "slot (run_inputs restored_dirty blank)"
  "f (watch (step (InRunWatch (Body [] (Return VUndefined))) (run_inputs restored_dirty blank)))
     = 2"
  by (simp_all add: restored_dirty_def eval_defs)

text \<open>
  Claim C2.  On a dirty descriptor \<^verbatim>\<open>runWatch\<close> clears IS_DIRTY once, in its
  synchronous part, and nothing else ever clears it.

  When a previous run's handle is in \<^verbatim>\<open>watch.running\<close>, the call returns with the flag
  clear and with nothing else done (no cleanup, no body, no subscription touched): the
  clear precedes the wait.  When there is no previous handle, the body is invoked inside
  the call with the flag already clear, and the flags the call returns with are exactly
  the cleared flags, with IS_DIRTY set again if and only if the body reached a write: a
  write made while the run is in progress is not undone when the call returns.

  The continuations of a run leave the flags as they find them, but for the writes of the
  body itself: the run callback returns the flags it started with, with IS_DIRTY set if
  the body reached a write, and the body callback returns them unchanged.  So a flag set
  again after the call is still set when the run has finished.

  Over the steps of an execution: once the descriptor is dirty, the only steps after which
  it is not are a call of \<^verbatim>\<open>runWatch\<close> and the microtask of \<^verbatim>\<open>useWatchQrl\<close> that calls
  it.
\<close>

theorem runWatch_clears_dirty_once:
  assumes "f (watch s) AND WatchFlagsIsDirty \<noteq> 0"
  shows "((running (watch s) \<noteq> None \<longrightarrow>
            f (watch (snd (runWatch b s))) = f (watch s) AND NOT WatchFlagsIsDirty
          \<and> f (watch (snd (runWatch b s))) AND WatchFlagsIsDirty = 0
          \<and> log (snd (runWatch b s)) = log s
          \<and> destroy (watch (snd (runWatch b s))) = destroy (watch s)
          \<and> subs (snd (runWatch b s)) = subs s)
       \<and> (running (watch s) = None \<longrightarrow>
            last (log (snd (runWatch b s))) = EvBody (f (watch s) AND NOT WatchFlagsIsDirty)
          \<and> f (watch (snd (runWatch b s))) =
              (if reaches_write (acts b)
               then (f (watch s) AND NOT WatchFlagsIsDirty) OR WatchFlagsIsDirty
               else f (watch s) AND NOT WatchFlagsIsDirty)
          \<and> (reaches_write (acts b) \<longrightarrow>
                f (watch (snd (runWatch b s))) AND WatchFlagsIsDirty \<noteq> 0))
       \<and> f (watch (run_job b' (React q' (KRun p') v') s')) =
            (if reaches_write (acts b') then f (watch s') OR WatchFlagsIsDirty else f (watch s'))
       \<and> f (watch (run_job b' (React q' (KBody p') v') s')) = f (watch s')
       \<and> f (watch (run_job b' (React q' (KRun p') v') (notify (snd (runWatch b s)))))
            AND WatchFlagsIsDirty \<noteq> 0
       \<and> f (watch (run_job b' (React q' (KBody p') v') (notify (snd (runWatch b s)))))
            AND WatchFlagsIsDirty \<noteq> 0)
     \<and> (slot t \<and> f (watch t) AND WatchFlagsIsDirty \<noteq> 0
          \<and> f (watch (step inp t)) AND WatchFlagsIsDirty = 0
        \<longrightarrow> (\<exists>c. inp = InRunWatch c)
            \<or> (\<exists>c q x v js. inp = InTick c \<and> queue t = React q (KInit x) v # js))"
proof (rule conjI)
  show "(running (watch s) \<noteq> None \<longrightarrow>
            f (watch (snd (runWatch b s))) = f (watch s) AND NOT WatchFlagsIsDirty
          \<and> f (watch (snd (runWatch b s))) AND WatchFlagsIsDirty = 0
          \<and> log (snd (runWatch b s)) = log s
          \<and> destroy (watch (snd (runWatch b s))) = destroy (watch s)
          \<and> subs (snd (runWatch b s)) = subs s)
       \<and> (running (watch s) = None \<longrightarrow>
            last (log (snd (runWatch b s))) = EvBody (f (watch s) AND NOT WatchFlagsIsDirty)
          \<and> f (watch (snd (runWatch b s))) =
              (if reaches_write (acts b)
               then (f (watch s) AND NOT WatchFlagsIsDirty) OR WatchFlagsIsDirty
               else f (watch s) AND NOT WatchFlagsIsDirty)
          \<and> (reaches_write (acts b) \<longrightarrow>
                f (watch (snd (runWatch b s))) AND WatchFlagsIsDirty \<noteq> 0))
       \<and> f (watch (run_job b' (React q' (KRun p') v') s')) =
            (if reaches_write (acts b') then f (watch s') OR WatchFlagsIsDirty else f (watch s'))
       \<and> f (watch (run_job b' (React q' (KBody p') v') s')) = f (watch s')
       \<and> f (watch (run_job b' (React q' (KRun p') v') (notify (snd (runWatch b s)))))
            AND WatchFlagsIsDirty \<noteq> 0
       \<and> f (watch (run_job b' (React q' (KBody p') v') (notify (snd (runWatch b s)))))
            AND WatchFlagsIsDirty \<noteq> 0"
    using assms runWatch_suspended[of s _ b] runWatch_immediate[of s b]
      runWatch_immediate_f[of s b]
      run_job_KRun_dirty[OF notify_dirty] run_job_KBody_dirty[OF notify_dirty]
    by (auto simp: and_not_self run_job_KRun_f run_job_KBody_f or_dirty_is_dirty)
next
  show "slot t \<and> f (watch t) AND WatchFlagsIsDirty \<noteq> 0
          \<and> f (watch (step inp t)) AND WatchFlagsIsDirty = 0
        \<longrightarrow> (\<exists>c. inp = InRunWatch c)
            \<or> (\<exists>c q x v js. inp = InTick c \<and> queue t = React q (KInit x) v # js)"
    using dirty_until_runWatch[of t inp] by blast
qed

theorem runWatch_clears_dirty_once_witness:
  "f (watch (run_inputs first_run blank)) AND WatchFlagsIsDirty \<noteq> 0
   \<and> running (watch (run_inputs first_run blank)) \<noteq> None
   \<and> f (watch (snd (runWatch (Body [Write] (Return VUndefined)) (run_inputs first_run blank))))
        AND WatchFlagsIsDirty = 0
   \<and> log (snd (runWatch (Body [Write] (Return VUndefined)) (run_inputs first_run blank)))
        = log (run_inputs first_run blank)
   \<and> f (watch (run_inputs restored_dirty blank)) AND WatchFlagsIsDirty \<noteq> 0
   \<and> running (watch (run_inputs restored_dirty blank)) = None
   \<and> reaches_write (acts (Body [Write] (Return VUndefined)))
   \<and> last (log (snd (runWatch (Body [Write] (Return VUndefined)) (run_inputs restored_dirty blank))))
        = EvBody 2
   \<and> f (watch (snd (runWatch (Body [Write] (Return VUndefined)) (run_inputs restored_dirty blank))))
        = 6
   \<and> f (watch (snd (runWatch (Body [] (Return VUndefined)) (run_inputs restored_dirty blank))))
        = 2
   \<and> slot (run_inputs restored_dirty blank)
   \<and> f (watch (step (InRunWatch (Body [] (Return VUndefined))) (run_inputs restored_dirty blank)))
        AND WatchFlagsIsDirty = 0"
proof -
  have h1: "f (watch (run_inputs first_run blank)) AND WatchFlagsIsDirty \<noteq> 0"
    by (rule first_run_state(1))
  have h2: "f (watch (run_inputs restored_dirty blank)) AND WatchFlagsIsDirty \<noteq> 0"
    by (rule restored_dirty_state(1))
  have r1: "running (watch (run_inputs first_run blank)) \<noteq> None"
    by (simp add: first_run_state(2))
  note a = runWatch_clears_dirty_once[OF h1, of "Body [Write] (Return VUndefined)"]
  note b = runWatch_clears_dirty_once[OF h2, of "Body [Write] (Return VUndefined)"]
  note c = runWatch_clears_dirty_once[OF h2, of "Body [] (Return VUndefined)"]
  have 1: "f (watch (snd (runWatch (Body [Write] (Return VUndefined)) (run_inputs first_run blank))))
        AND WatchFlagsIsDirty = 0
     \<and> log (snd (runWatch (Body [Write] (Return VUndefined)) (run_inputs first_run blank)))
        = log (run_inputs first_run blank)"
    using a r1 by blast
  have w: "reaches_write (acts (Body [Write] (Return VUndefined)))" by simp
  have nw: "\<not> reaches_write (acts (Body [] (Return VUndefined)))" by simp
  have 2: "last (log (snd (runWatch (Body [Write] (Return VUndefined)) (run_inputs restored_dirty blank))))
        = EvBody (f (watch (run_inputs restored_dirty blank)) AND NOT WatchFlagsIsDirty)
     \<and> f (watch (snd (runWatch (Body [Write] (Return VUndefined)) (run_inputs restored_dirty blank))))
        = (f (watch (run_inputs restored_dirty blank)) AND NOT WatchFlagsIsDirty) OR WatchFlagsIsDirty"
    using b restored_dirty_state(2) w by presburger
  have 3: "f (watch (snd (runWatch (Body [] (Return VUndefined)) (run_inputs restored_dirty blank))))
        = f (watch (run_inputs restored_dirty blank)) AND NOT WatchFlagsIsDirty"
    using c restored_dirty_state(2) nw by presburger
  have 4: "f (watch (step (InRunWatch (Body [] (Return VUndefined))) (run_inputs restored_dirty blank)))
        AND WatchFlagsIsDirty = 0"
    unfolding restored_dirty_state(5) by (simp add: WatchFlagsIsDirty_def)
  show ?thesis
    using h1 h2 r1 1 2 3 4 w restored_dirty_state(2) restored_dirty_state(4)
    by (simp add: restored_dirty_state(3) WatchFlagsIsDirty_def)
qed

subsection \<open>The calls of a run\<close>

text \<open>What each operation appends to the log.\<close>

lemma cleanupWatch_log: "log (snd (cleanupWatch s)) = log s @ cleanup_events (destroy (watch s))"
  by (cases "destroy (watch s)")
     (simp_all add: cleanupWatch_Some cleanupWatch_None cleanup_events_def)

lemma run_callback_segment:
  "log (snd (run_callback b p q s)) = log s @ segment p q (destroy (watch s)) (f (watch s))"
  by (simp add: run_callback_log cleanupWatch_log segment_def)

lemma runWatch_log:
  "log (snd (runWatch b s)) =
     (if f (watch s) AND WatchFlagsIsDirty = 0 then log s @ [EvLogDebug]
      else if running (watch s) = None
      then log s @ segment (Handle, next_pid s) None (destroy (watch s))
                     (f (watch s) AND NOT WatchFlagsIsDirty)
      else log s)"
proof (cases "f (watch s) AND WatchFlagsIsDirty = 0")
  case True
  then show ?thesis by (simp add: runWatch_def promise_resolve_def)
next
  case False
  show ?thesis
  proof (cases "running (watch s)")
    case (Some r)
    then show ?thesis using False runWatch_suspended(2)[OF False Some, of b] by simp
  next
    case None
    define s2 where
      "s2 = s\<lparr>watch := (watch s)\<lparr>f := f (watch s) AND NOT WatchFlagsIsDirty\<rparr>,
               next_pid := Suc (next_pid s)\<rparr>"
    define p where "p = (Handle, next_pid s)"
    have "log (executor b p s2) = log (snd (run_callback b p None s2))"
      using None
      by (cases "run_callback b p None s2")
         (auto simp: executor_alt reject_log s2_def split: option.splits)
    moreover have "log (snd (runWatch b s)) = log (executor b p s2)"
      using False by (simp add: runWatch_def Let_def new_promise_def s2_def p_def)
    ultimately have "log (snd (runWatch b s)) = log (snd (run_callback b p None s2))" by simp
    then show ?thesis
      using False None by (simp add: run_callback_segment s2_def p_def)
  qed
qed

lemma run_job_KRun_log:
  "log (run_job b (React q (KRun p) v) s) =
     log s @ segment p (Some q) (destroy (watch s)) (f (watch s))
           @ (case fst (run_callback b p (Some q) s) of None \<Rightarrow> [] | Some e \<Rightarrow> [EvUnhandled e])"
proof -
  obtain r s' where rc: "run_callback b p (Some q) s = (r, s')"
    by (cases "run_callback b p (Some q) s")
  have "log s' = log s @ segment p (Some q) (destroy (watch s)) (f (watch s))"
    using run_callback_segment[of b p "Some q" s] rc by simp
  then show ?thesis using rc by (cases r) (simp_all add: run_job_def)
qed

lemma destroyWatch_log:
  "log (snd (destroyWatch c s)) =
     (if f (watch s) AND WatchFlagsIsCleanup \<noteq> 0 then log s @ [EvQrlCall c]
      else log s @ cleanup_events (destroy (watch s)))"
  by (simp add: destroyWatch_def Let_def cleanupWatch_log)

text \<open>Reading the log: every operation appends complete runs only.\<close>

lemma segs_ok_Nil [simp]: "segs_ok []"
  by (simp add: segs_ok_def)

lemma segs_ok_append: "segs_ok d \<Longrightarrow> segs_ok d' \<Longrightarrow> segs_ok (d @ d')"
  by (simp add: segs_ok_def)

lemma segs_ok_cleanup_events [simp]: "segs_ok (cleanup_events d)"
  by (cases d; cases "fn_throws (the d)") (simp_all add: segs_ok_def cleanup_events_def)

lemma segs_ok_segment [simp]: "segs_ok (segment p q d fl)"
  by (cases d; cases "fn_throws (the d)") (simp_all add: segs_ok_def segment_def cleanup_events_def)

lemma segs_ok_single [simp]:
  "segs_ok [EvLogDebug]" "segs_ok [EvQrlCall c]" "segs_ok [EvUnhandled e]"
  by (simp_all add: segs_ok_def)

lemma segs_ok_runWatch: "segs_ok (log s) \<Longrightarrow> segs_ok (log (snd (runWatch b s)))"
  by (simp add: runWatch_log segs_ok_append)

lemma segs_ok_run_job: "segs_ok (log s) \<Longrightarrow> segs_ok (log (run_job b j s))"
proof (cases j)
  case (React q k v)
  assume w: "segs_ok (log s)"
  show ?thesis
  proof (cases k)
    case (KRun p)
    have "segs_ok (case fst (run_callback b p (Some q) s) of None \<Rightarrow> [] | Some e \<Rightarrow> [EvUnhandled e])"
      by (cases "fst (run_callback b p (Some q) s)") simp_all
    then show ?thesis using w by (simp add: React KRun run_job_KRun_log segs_ok_append)
  next
    case (KBody p)
    then show ?thesis using w React by (simp add: run_job_def body_callback_log)
  next
    case (KInit d)
    have "log (run_job b j s) = log (snd (runWatch b s))"
      by (simp add: run_job_def React KInit case_prod_beta)
    then show ?thesis using w by (simp add: segs_ok_runWatch)
  next
    case (KAdopt d)
    then show ?thesis using w React by (simp add: run_job_def resolve_log)
  qed
next
  case (PassReject d e)
  assume "segs_ok (log s)"
  then show ?thesis using PassReject by (simp add: run_job_def reject_log)
next
  case (Thenable d r)
  assume "segs_ok (log s)"
  then show ?thesis using Thenable by (simp add: run_job_def then_log)
qed

lemma segs_ok_step: "segs_ok (log s) \<Longrightarrow> segs_ok (log (step inp s))"
proof (cases inp)
  case (InUseWatchQrl q e n srv opts)
  then show "segs_ok (log s) \<Longrightarrow> segs_ok (log (step inp s))" by (simp add: log_useWatchQrl)
next
  case (InUseClientEffectQrl q e n opts ob)
  then show "segs_ok (log s) \<Longrightarrow> segs_ok (log (step inp s))" by (simp add: log_useClientEffectQrl)
next
  case (InRestore fl)
  then show "segs_ok (log s) \<Longrightarrow> segs_ok (log (step inp s))" by (simp add: restore_def)
next
  case (InRunWatch b)
  then show "segs_ok (log s) \<Longrightarrow> segs_ok (log (step inp s))" by (simp add: segs_ok_runWatch)
next
  case InNotify
  then show "segs_ok (log s) \<Longrightarrow> segs_ok (log (step inp s))" by (simp add: notify_def)
next
  case (InTick b)
  assume w: "segs_ok (log s)"
  show "segs_ok (log (step inp s))"
  proof (cases "queue s")
    case Nil
    then show ?thesis using w InTick by (simp add: tick_def)
  next
    case (Cons j js)
    have "segs_ok (log (run_job b j (s\<lparr>queue := js\<rparr>)))" by (rule segs_ok_run_job) (simp add: w)
    then show ?thesis using w InTick Cons by (simp add: tick_def)
  qed
next
  case (InSettle bp out)
  then show "segs_ok (log s) \<Longrightarrow> segs_ok (log (step inp s))"
    by (cases out) (simp_all add: settle_body_def resolve_log reject_log)
next
  case (InDestroy c)
  then show "segs_ok (log s) \<Longrightarrow> segs_ok (log (step inp s))"
    by (simp add: destroyWatch_log segs_ok_append)
qed

lemma segs_ok_fold: "segs_ok (log s) \<Longrightarrow> segs_ok (log (fold step ins s))"
  by (induction ins arbitrary: s) (simp_all add: segs_ok_step)

lemma segs_ok_run_inputs: "segs_ok (log (run_inputs ins blank))"
  unfolding run_inputs_def by (rule segs_ok_fold) (simp add: blank_def)

lemma starts_append:
  "log s' = log s @ d \<Longrightarrow> starts s' p = starts s p + length (filter (is_start_of p) d)"
  by (simp add: starts_def)

lemma starts_same: "log s' = log s \<Longrightarrow> starts s' p = starts s p"
  by (simp add: starts_def)

lemma starts_cleanup_events [simp]: "filter (is_start_of p) (cleanup_events d) = []"
  by (cases d; cases "fn_throws (the d)") (simp_all add: cleanup_events_def)

lemma starts_segment [simp]:
  "length (filter (is_start_of p) (segment p0 q d fl)) = (if p0 = p then 1 else 0)"
  by (simp add: segment_def)

lemma waiting_core: "core s' = core s \<Longrightarrow> waiting s' p = waiting s p"
  by (simp add: waiting_def core_def)

lemma finishing_core: "core s' = core s \<Longrightarrow> finishing s' p = finishing s p"
  by (simp add: finishing_def core_def)

lemma fulfil_jobs_runs:
  "length (filter (\<lambda>y. snd y = KRun p) (filter (\<lambda>(q, k). q \<noteq> x) rs))
     + length (filter (runs_job p) (fulfil_jobs x v rs))
   = length (filter (\<lambda>y. snd y = KRun p) rs)"
  by (induction rs) (auto simp: fulfil_jobs_def)

lemma reject_jobs_runs: "filter (runs_job p) (reject_jobs x e rs) = []"
proof (induction rs)
  case Nil
  show ?case by (simp add: reject_jobs_def)
next
  case (Cons a rs)
  obtain q k where a: "a = (q, k)" by (cases a)
  have "filter (runs_job p) (reject_job e k) = []" by (cases k) simp_all
  then show ?case using Cons by (simp add: reject_jobs_def a)
qed

lemma reject_job_ends_set: "j \<in> set (reject_job e k) \<Longrightarrow> \<not> ends_job p j"
  by (cases k) auto

lemma reject_job_ends: "list_ex (ends_job p) (reject_job e k) = False"
  using reject_job_ends_set by (auto simp: list_ex_iff)

lemma reject_jobs_ends: "list_ex (ends_job p) (reject_jobs x e rs) = False"
proof (induction rs)
  case Nil
  show ?case by (simp add: reject_jobs_def)
next
  case (Cons a rs)
  obtain q k where a: "a = (q, k)" by (cases a)
  have "reject_jobs x e (a # rs) = (if q = x then reject_job e k else []) @ reject_jobs x e rs"
    by (simp add: reject_jobs_def a)
  moreover have "\<And>xs ys. list_ex (ends_job p) (xs @ ys) = (list_ex (ends_job p) xs \<or> list_ex (ends_job p) ys)"
    by (auto simp: list_ex_iff)
  ultimately show ?case using Cons reject_job_ends[of p e k] by simp
qed

lemma filter_both_le:
  "length (filter (\<lambda>y. (case y of (q, k) \<Rightarrow> q \<noteq> x) \<and> snd y = KRun p) rs)
   \<le> length (filter (\<lambda>y. snd y = KRun p) rs)"
  by (induction rs) auto

lemma fulfil_jobs_ends:
  "list_ex (ends_job p) (fulfil_jobs x v rs) \<Longrightarrow> list_ex (\<lambda>y. snd y = KBody p) rs"
  by (induction rs) (auto simp: fulfil_jobs_def split: if_splits)

lemma filter_keeps_ex:
  "list_ex P (filter Q rs) \<Longrightarrow> list_ex P rs"
  by (auto simp: list_ex_iff)

lemma waiting_resolve: "waiting (resolve_promise x v s) p = waiting s p"
  using fulfil_jobs_runs[of p x "reactions s" v]
  by (simp add: waiting_def resolve_promise_def)

lemma waiting_reject: "waiting (reject_promise x e s) p \<le> waiting s p"
  using filter_both_le[of x p "reactions s"]
  by (simp add: waiting_def reject_promise_def reject_jobs_runs)

lemma waiting_then:
  "waiting (promise_then q k s) p \<le> waiting s p + (if k = KRun p then 1 else 0)"
proof (cases "pstates s q")
  case Pending
  then show ?thesis by (simp add: waiting_def promise_then_def)
next
  case (Fulfilled v)
  then show ?thesis by (simp add: waiting_def promise_then_def)
next
  case (Rejected e)
  have "filter (runs_job p) (reject_job e k) = []" by (cases k) simp_all
  then show ?thesis using Rejected by (simp add: waiting_def promise_then_def)
qed

lemma waiting_with_body [simp]: "waiting (with_body s) p = waiting s p"
  by (simp add: waiting_def with_body_def)

lemma waiting_with_handle [simp]: "waiting (with_handle s) p = waiting s p"
  by (simp add: waiting_def with_handle_def)

lemma finishing_resolve:
  "finishing (resolve_promise x v s) p \<Longrightarrow> finishing s p \<or> (p = x \<and> fst x = Handle)"
proof (cases "pstates s x = Pending")
  case False
  then show "finishing (resolve_promise x v s) p \<Longrightarrow> ?thesis" by (simp add: resolve_promise_def)
next
  case True
  assume "finishing (resolve_promise x v s) p"
  then consider
      (a) "list_ex (\<lambda>y. snd y = KBody p) (filter (\<lambda>(q, k). q \<noteq> x) (reactions s))"
    | (b) "list_ex (ends_job p) (queue s)"
    | (c) "list_ex (ends_job p) (fulfil_jobs x v (reactions s))"
    | (d) "fst p = Handle" "fulfilled (((pstates s)(x := Fulfilled v)) p)"
    using True by (auto simp: finishing_def resolve_promise_def)
  then show ?thesis
  proof cases
    case a
    then show ?thesis using filter_keeps_ex by (auto simp: finishing_def)
  next
    case b
    then show ?thesis by (simp add: finishing_def)
  next
    case c
    then show ?thesis using fulfil_jobs_ends by (auto simp: finishing_def)
  next
    case d
    then show ?thesis by (cases "p = x") (auto simp: finishing_def)
  qed
qed

lemma finishing_reject: "finishing (reject_promise x e s) p \<Longrightarrow> finishing s p"
proof (cases "pstates s x = Pending")
  case False
  then show "finishing (reject_promise x e s) p \<Longrightarrow> ?thesis" by (simp add: reject_promise_def)
next
  case True
  assume "finishing (reject_promise x e s) p"
  then consider
      (a) "list_ex (\<lambda>y. snd y = KBody p) (filter (\<lambda>(q, k). q \<noteq> x) (reactions s))"
    | (b) "list_ex (ends_job p) (queue s)"
    | (d) "fst p = Handle" "fulfilled (((pstates s)(x := Rejected e)) p)"
    using True by (auto simp: finishing_def reject_promise_def reject_jobs_ends)
  then show ?thesis
  proof cases
    case a
    then show ?thesis using filter_keeps_ex by (auto simp: finishing_def)
  next
    case b
    then show ?thesis by (simp add: finishing_def)
  next
    case d
    then show ?thesis by (cases "p = x") (auto simp: finishing_def)
  qed
qed

lemma finishing_then:
  "finishing (promise_then q k s) p \<Longrightarrow> finishing s p \<or> k = KBody p"
  by (cases "pstates s q")
     (auto simp: finishing_def promise_then_def reject_job_ends)

lemma finishing_with_body [simp]: "finishing (with_body s) p = finishing s p"
  by (simp add: finishing_def with_body_def)

lemma finishing_with_handle [simp]: "finishing (with_handle s) p = finishing s p"
  by (simp add: finishing_def with_handle_def)

lemma finishing_promise_resolve:
  "finishing (snd (promise_resolve v s)) p = finishing s p"
  by (auto simp: finishing_def promise_resolve_def)

lemma waiting_promise_resolve [simp]:
  "waiting (snd (promise_resolve v s)) p = waiting s p"
  by (simp add: waiting_def promise_resolve_def)

text \<open>The rule by which every operation keeps the count.\<close>

lemma run_once_rule:
  assumes r: "run_once s"
    and n: "next_pid s \<le> next_pid s'"
    and t: "\<And>p. starts s' p + waiting s' p
                  \<le> starts s p + waiting s p
                     + (if p = (Handle, next_pid s) \<and> next_pid s < next_pid s' then 1 else 0)"
    and f: "\<And>p. finishing s' p \<Longrightarrow> finishing s p \<or> 1 \<le> starts s' p"
    and m: "\<And>p. starts s p \<le> starts s' p"
  shows "run_once s'"
  unfolding run_once_def
proof (intro allI conjI impI)
  fix p :: pid
  have a: "starts s p + waiting s p \<le> 1" using r unfolding run_once_def by blast
  have z: "next_pid s \<le> snd p \<Longrightarrow> starts s p + waiting s p = 0"
    using r unfolding run_once_def by blast
  show "starts s' p + waiting s' p \<le> 1"
  proof (cases "p = (Handle, next_pid s)")
    case True
    then have "starts s p + waiting s p = 0" using z by simp
    then show ?thesis using t[of p] by (simp split: if_splits)
  next
    case False
    then show ?thesis using t[of p] a by simp
  qed
next
  fix p :: pid
  assume b: "next_pid s' \<le> snd p"
  then have "next_pid s \<le> snd p" using n by simp
  then have z0: "starts s p + waiting s p = 0" using r unfolding run_once_def by blast
  have c0: "(if p = (Handle, next_pid s) \<and> next_pid s < next_pid s' then 1 else 0) = (0::nat)"
    using b by auto
  have "starts s' p + waiting s' p
        \<le> starts s p + waiting s p
           + (if p = (Handle, next_pid s) \<and> next_pid s < next_pid s' then 1 else 0)"
    by (rule t)
  then have "starts s' p + waiting s' p \<le> 0" unfolding z0 c0 by simp
  then show "starts s' p + waiting s' p = 0" by simp
next
  fix p :: pid
  assume "finishing s' p"
  then have "finishing s p \<or> 1 \<le> starts s' p" by (rule f)
  then show "1 \<le> starts s' p"
  proof
    assume "finishing s p"
    then have "1 \<le> starts s p" using r unfolding run_once_def by blast
    then show ?thesis using m[of p] by simp
  qed simp
qed

text \<open>The run callback.\<close>

lemma run_callback_tally:
  shows "starts (snd (run_callback b p0 q s)) p = starts s p + (if p0 = p then 1 else 0)"
    and "waiting (snd (run_callback b p0 q s)) p \<le> waiting s p"
    and "finishing (snd (run_callback b p0 q s)) p \<Longrightarrow> finishing s p \<or> p = p0"
    and "next_pid s \<le> next_pid (snd (run_callback b p0 q s))"
proof -
  define s' where "s' = snd (run_callback b p0 q s)"
  define X where "X = promise_then (BodyResult, next_pid s) (KBody p0) (with_body s)"
  define Y where "Y = resolve_promise p0 VWatch s"
  have "log s' = log s @ segment p0 q (destroy (watch s)) (f (watch s))"
    unfolding s'_def by (rule run_callback_segment)
  then have "starts s' p = starts s p + (if p0 = p then 1 else 0)"
    using starts_append[of s' s _ p] by simp
  then show "starts (snd (run_callback b p0 q s)) p = starts s p + (if p0 = p then 1 else 0)"
    by (simp add: s'_def)
  have sh: "core s' = core s \<or> core s' = core Y \<or> core s' = core X"
    using run_callback_shape[of b p0 q s] unfolding s'_def X_def Y_def by blast
  have wY: "waiting Y p = waiting s p" unfolding Y_def by (rule waiting_resolve)
  have wX: "waiting X p \<le> waiting s p"
    using waiting_then[of "(BodyResult, next_pid s)" "KBody p0" "with_body s" p]
    by (simp add: X_def)
  have nY: "next_pid Y = next_pid s" by (simp add: Y_def resolve_promise_def)
  have nX: "next_pid s \<le> next_pid X"
    by (simp add: X_def promise_then_def with_body_def split: pstate.splits)
  have fY: "finishing Y p \<Longrightarrow> finishing s p \<or> p = p0"
    unfolding Y_def using finishing_resolve[of p0 VWatch s p] by blast
  have fX: "finishing X p \<Longrightarrow> finishing s p \<or> p = p0"
    unfolding X_def
    using finishing_then[of "(BodyResult, next_pid s)" "KBody p0" "with_body s" p] by auto
  have w: "waiting s' p \<le> waiting s p"
    using sh
  proof (elim disjE)
    assume h: "core s' = core s"
    show ?thesis using waiting_core[OF h, of p] by simp
  next
    assume h: "core s' = core Y"
    show ?thesis using waiting_core[OF h, of p] wY by simp
  next
    assume h: "core s' = core X"
    show ?thesis using waiting_core[OF h, of p] wX by simp
  qed
  then show "waiting (snd (run_callback b p0 q s)) p \<le> waiting s p" by (simp add: s'_def)
  have n: "next_pid s \<le> next_pid s'"
    using sh
  proof (elim disjE)
    assume h: "core s' = core s"
    show ?thesis using core_eqD(5)[OF h] by simp
  next
    assume h: "core s' = core Y"
    show ?thesis using core_eqD(5)[OF h] nY by simp
  next
    assume h: "core s' = core X"
    show ?thesis using core_eqD(5)[OF h] nX by simp
  qed
  then show "next_pid s \<le> next_pid (snd (run_callback b p0 q s))" by (simp add: s'_def)
  have "finishing s' p \<Longrightarrow> finishing s p \<or> p = p0"
    using sh
  proof (elim disjE)
    assume h: "core s' = core s" and g: "finishing s' p"
    show ?thesis using finishing_core[OF h, of p] g by simp
  next
    assume h: "core s' = core Y" and g: "finishing s' p"
    show ?thesis using finishing_core[OF h, of p] g fY by simp
  next
    assume h: "core s' = core X" and g: "finishing s' p"
    show ?thesis using finishing_core[OF h, of p] g fX by simp
  qed
  then show "finishing (snd (run_callback b p0 q s)) p \<Longrightarrow> finishing s p \<or> p = p0"
    by (simp add: s'_def)
qed

lemma run_once_parts:
  assumes r: "run_once s"
    and n: "next_pid s \<le> next_pid s'"
    and st: "\<And>p. starts s' p = starts s p"
    and w: "\<And>p. waiting s' p \<le> waiting s p"
    and f: "\<And>p. finishing s' p \<Longrightarrow> finishing s p"
  shows "run_once s'"
  using r n
proof (rule run_once_rule)
  fix p :: pid
  show "starts s' p + waiting s' p
        \<le> starts s p + waiting s p
           + (if p = (Handle, next_pid s) \<and> next_pid s < next_pid s' then 1 else 0)"
    using st[of p] w[of p] by simp
  show "finishing s' p \<Longrightarrow> finishing s p \<or> 1 \<le> starts s' p" using f[of p] by simp
  show "starts s p \<le> starts s' p" using st[of p] by simp
qed

text \<open>\<^verbatim>\<open>runWatch\<close>.\<close>

lemma runWatch_tally:
  shows "next_pid s < next_pid (snd (runWatch b s))"
    and "starts s p \<le> starts (snd (runWatch b s)) p"
    and "starts (snd (runWatch b s)) p + waiting (snd (runWatch b s)) p
         \<le> starts s p + waiting s p + (if p = (Handle, next_pid s) then 1 else 0)"
    and "finishing (snd (runWatch b s)) p \<Longrightarrow> finishing s p \<or> 1 \<le> starts (snd (runWatch b s)) p"
proof -
  define s' where "s' = snd (runWatch b s)"
  define p0 where "p0 = (Handle, next_pid s)"
  define H where "H = with_handle s"
  have nH: "next_pid H = Suc (next_pid s)" by (simp add: H_def with_handle_def)
  have wH: "waiting H p = waiting s p" by (simp add: H_def)
  have fH: "finishing H p = finishing s p" by (simp add: H_def)
  have all: "next_pid s < next_pid s' \<and> starts s p \<le> starts s' p
             \<and> starts s' p + waiting s' p
                \<le> starts s p + waiting s p + (if p = p0 then 1 else 0)
             \<and> (finishing s' p \<longrightarrow> finishing s p \<or> 1 \<le> starts s' p)"
  proof (cases "f (watch s) AND WatchFlagsIsDirty = 0")
    case True
    have c: "core s' = core (snd (promise_resolve VWatch s))"
      unfolding s'_def using True by (rule runWatch_clean)
    have l: "log s' = log s @ [EvLogDebug]" using True by (simp add: s'_def runWatch_log)
    have st: "starts s' p = starts s p" using starts_append[OF l, of p] by simp
    have "next_pid s' = Suc (next_pid s)"
      using core_eqD(5)[OF c] by (simp add: promise_resolve_def)
    moreover have "waiting s' p = waiting s p" using waiting_core[OF c, of p] by simp
    moreover have "finishing s' p = finishing s p"
      using finishing_core[OF c, of p] finishing_promise_resolve[of VWatch s p] by simp
    ultimately show ?thesis using st by simp
  next
    case False
    have l: "log s' = (if running (watch s) = None
                       then log s @ segment p0 None (destroy (watch s))
                              (f (watch s) AND NOT WatchFlagsIsDirty)
                       else log s)"
      using False by (simp add: s'_def runWatch_log p0_def)
    have sh: "(\<exists>q. running (watch s) = Some q \<and> core s' = core (promise_then q (KRun p0) H))
       \<or> (running (watch s) = None
          \<and> ((\<exists>e. core s' = core (reject_promise p0 e H))
              \<or> core s' = core (resolve_promise p0 VWatch H)
              \<or> core s' = core (promise_then (BodyResult, Suc (next_pid s)) (KBody p0)
                                  (with_body H))))"
      using runWatch_shape[OF False, of b] unfolding s'_def p0_def H_def by blast
    from sh show ?thesis
    proof (elim disjE conjE exE)
      fix q
      assume r: "running (watch s) = Some q" and c: "core s' = core (promise_then q (KRun p0) H)"
      define X where "X = promise_then q (KRun p0) H"
      have st: "starts s' p = starts s p" using l r by (simp add: starts_def)
      have nX: "next_pid X = Suc (next_pid s)"
        using nH by (simp add: X_def promise_then_def split: pstate.splits)
      have wX: "waiting X p \<le> waiting s p + (if p = p0 then 1 else 0)"
        using waiting_then[of q "KRun p0" H p] wH by (auto simp: X_def)
      have fX: "finishing X p \<Longrightarrow> finishing s p"
        using finishing_then[of q "KRun p0" H p] fH by (simp add: X_def)
      have c': "core s' = core X" using c by (simp add: X_def)
      show ?thesis
        using core_eqD(5)[OF c'] waiting_core[OF c', of p] finishing_core[OF c', of p]
          nX wX fX st
        by auto
    next
      fix e
      assume r: "running (watch s) = None" and c: "core s' = core (reject_promise p0 e H)"
      define X where "X = reject_promise p0 e H"
      have st: "starts s' p = starts s p + (if p0 = p then 1 else 0)"
        using l r starts_append[of s' s _ p] by simp
      have nX: "next_pid X = Suc (next_pid s)"
        using nH by (simp add: X_def reject_promise_def)
      have wX: "waiting X p \<le> waiting s p"
        using waiting_reject[of p0 e H p] wH by (simp add: X_def)
      have fX: "finishing X p \<Longrightarrow> finishing s p"
        using finishing_reject[of p0 e H p] fH by (simp add: X_def)
      have c': "core s' = core X" using c by (simp add: X_def)
      show ?thesis
        using core_eqD(5)[OF c'] waiting_core[OF c', of p] finishing_core[OF c', of p]
          nX wX fX st
        by auto
    next
      assume r: "running (watch s) = None" and c: "core s' = core (resolve_promise p0 VWatch H)"
      define X where "X = resolve_promise p0 VWatch H"
      have st: "starts s' p = starts s p + (if p0 = p then 1 else 0)"
        using l r starts_append[of s' s _ p] by simp
      have nX: "next_pid X = Suc (next_pid s)"
        using nH by (simp add: X_def resolve_promise_def)
      have wX: "waiting X p \<le> waiting s p"
        using waiting_resolve[of p0 VWatch H p] wH by (simp add: X_def)
      have fX: "finishing X p \<Longrightarrow> finishing s p \<or> p = p0"
        using finishing_resolve[of p0 VWatch H p] fH by (auto simp: X_def)
      have c': "core s' = core X" using c by (simp add: X_def)
      show ?thesis
        using core_eqD(5)[OF c'] waiting_core[OF c', of p] finishing_core[OF c', of p]
          nX wX fX st
        by auto
    next
      assume r: "running (watch s) = None"
        and c: "core s' = core (promise_then (BodyResult, Suc (next_pid s)) (KBody p0) (with_body H))"
      define X where "X = promise_then (BodyResult, Suc (next_pid s)) (KBody p0) (with_body H)"
      have st: "starts s' p = starts s p + (if p0 = p then 1 else 0)"
        using l r starts_append[of s' s _ p] by simp
      have nX: "next_pid s < next_pid X"
        using nH by (simp add: X_def promise_then_def with_body_def split: pstate.splits)
      have wX: "waiting X p \<le> waiting s p"
        using waiting_then[of "(BodyResult, Suc (next_pid s))" "KBody p0" "with_body H" p] wH
        by (simp add: X_def)
      have fX: "finishing X p \<Longrightarrow> finishing s p \<or> p = p0"
        using finishing_then[of "(BodyResult, Suc (next_pid s))" "KBody p0" "with_body H" p] fH
        by (auto simp: X_def)
      have c': "core s' = core X" using c by (simp add: X_def)
      show ?thesis
        using core_eqD(5)[OF c'] waiting_core[OF c', of p] finishing_core[OF c', of p]
          nX wX fX st
        by auto
    qed
  qed
  show "next_pid s < next_pid (snd (runWatch b s))" using all by (simp add: s'_def)
  show "starts s p \<le> starts (snd (runWatch b s)) p" using all by (simp add: s'_def)
  show "starts (snd (runWatch b s)) p + waiting (snd (runWatch b s)) p
         \<le> starts s p + waiting s p + (if p = (Handle, next_pid s) then 1 else 0)"
    using all by (simp add: s'_def p0_def)
  show "finishing (snd (runWatch b s)) p \<Longrightarrow> finishing s p \<or> 1 \<le> starts (snd (runWatch b s)) p"
    using all by (simp add: s'_def)
qed

lemma run_once_runWatch:
  assumes r: "run_once s"
  shows "run_once (snd (runWatch b s))"
  using r
proof (rule run_once_rule)
  show "next_pid s \<le> next_pid (snd (runWatch b s))"
    using runWatch_tally(1)[of s b] by simp
  fix p :: pid
  show "starts (snd (runWatch b s)) p + waiting (snd (runWatch b s)) p
        \<le> starts s p + waiting s p
           + (if p = (Handle, next_pid s) \<and> next_pid s < next_pid (snd (runWatch b s))
              then 1 else 0)"
    using runWatch_tally(1)[of s b] runWatch_tally(3)[of b s p] by simp
  show "finishing (snd (runWatch b s)) p \<Longrightarrow> finishing s p \<or> 1 \<le> starts (snd (runWatch b s)) p"
    by (rule runWatch_tally(4))
  show "starts s p \<le> starts (snd (runWatch b s)) p" by (rule runWatch_tally(2))
qed

text \<open>One microtask.\<close>

lemma run_job_KRun_tally:
  shows "starts (run_job b (React q (KRun p0) v) t) p = starts t p + (if p0 = p then 1 else 0)"
    and "waiting (run_job b (React q (KRun p0) v) t) p \<le> waiting t p"
    and "finishing (run_job b (React q (KRun p0) v) t) p \<Longrightarrow> finishing t p \<or> p = p0"
    and "next_pid t \<le> next_pid (run_job b (React q (KRun p0) v) t)"
proof -
  define s' where "s' = run_job b (React q (KRun p0) v) t"
  obtain r s2 where rc: "run_callback b p0 (Some q) t = (r, s2)"
    by (cases "run_callback b p0 (Some q) t")
  have s2: "s2 = snd (run_callback b p0 (Some q) t)" using rc by simp
  have c: "core s' = core s2" using rc by (cases r) (simp_all add: s'_def run_job_def)
  have "filter (is_start_of p) (log s') = filter (is_start_of p) (log s2)"
    using rc by (cases r) (simp_all add: s'_def run_job_def)
  then have st: "starts s' p = starts s2 p" by (simp add: starts_def)
  show "starts (run_job b (React q (KRun p0) v) t) p = starts t p + (if p0 = p then 1 else 0)"
    using st run_callback_tally(1)[of b p0 "Some q" t p] by (simp add: s'_def s2)
  show "waiting (run_job b (React q (KRun p0) v) t) p \<le> waiting t p"
    using waiting_core[OF c, of p] run_callback_tally(2)[of b p0 "Some q" t p]
    by (simp add: s'_def s2)
  show "finishing (run_job b (React q (KRun p0) v) t) p \<Longrightarrow> finishing t p \<or> p = p0"
    using finishing_core[OF c, of p] run_callback_tally(3)[of b p0 "Some q" t p]
    by (simp add: s'_def s2)
  show "next_pid t \<le> next_pid (run_job b (React q (KRun p0) v) t)"
    using core_eqD(5)[OF c] run_callback_tally(4)[of t b p0 "Some q"]
    by (simp add: s'_def s2)
qed

lemma run_job_KBody_tally:
  shows "starts (run_job b (React q (KBody p0) v) t) p = starts t p"
    and "waiting (run_job b (React q (KBody p0) v) t) p = waiting t p"
    and "finishing (run_job b (React q (KBody p0) v) t) p \<Longrightarrow> finishing t p \<or> p = p0"
    and "next_pid (run_job b (React q (KBody p0) v) t) = next_pid t"
proof -
  define s' where "s' = run_job b (React q (KBody p0) v) t"
  have e: "s' = body_callback p0 v t" by (simp add: s'_def run_job_def)
  have "core t = core t" by simp
  then have "core (body_callback p0 v t) = core (resolve_promise p0 VWatch t)"
    by (rule body_callback_core)
  then have c: "core s' = core (resolve_promise p0 VWatch t)" by (simp add: e)
  show "starts (run_job b (React q (KBody p0) v) t) p = starts t p"
    by (simp add: run_job_def starts_def body_callback_log)
  show "waiting (run_job b (React q (KBody p0) v) t) p = waiting t p"
    using waiting_core[OF c, of p] waiting_resolve[of p0 VWatch t p] by (simp add: s'_def)
  show "finishing (run_job b (React q (KBody p0) v) t) p \<Longrightarrow> finishing t p \<or> p = p0"
    using finishing_core[OF c, of p] finishing_resolve[of p0 VWatch t p] by (auto simp: s'_def)
  show "next_pid (run_job b (React q (KBody p0) v) t) = next_pid t"
    using core_eqD(5)[OF c] by (simp add: s'_def resolve_promise_def)
qed

lemma run_job_KInit_tally:
  shows "starts (run_job b (React q (KInit d) v) t) p = starts (snd (runWatch b t)) p"
    and "waiting (run_job b (React q (KInit d) v) t) p = waiting (snd (runWatch b t)) p"
    and "finishing (run_job b (React q (KInit d) v) t) p = finishing (snd (runWatch b t)) p"
    and "next_pid (run_job b (React q (KInit d) v) t) = next_pid (snd (runWatch b t))"
  by (simp_all add: run_job_def case_prod_beta starts_def waiting_def finishing_def)

lemma run_once_tick:
  assumes i: "inv s" and r: "run_once s"
  shows "run_once (tick b s)"
proof (cases "queue s")
  case Nil
  then show ?thesis using r by (simp add: tick_def)
next
  case (Cons j js)
  define t where "t = s\<lparr>queue := js\<rparr>"
  define s' where "s' = run_job b j t"
  have tk: "tick b s = s'" using Cons by (simp add: tick_def s'_def t_def)
  have jok: "job_ok t j" unfolding t_def using i Cons by (rule pop_facts(2))
  have st: "\<And>p. starts t p = starts s p" by (simp add: t_def starts_def)
  have wt: "\<And>p. waiting s p = waiting t p + (if runs_job p j then 1 else 0)"
    by (simp add: t_def waiting_def Cons)
  have ft: "\<And>p. finishing t p \<Longrightarrow> finishing s p"
    by (auto simp: t_def finishing_def Cons)
  have fj: "\<And>p. ends_job p j \<Longrightarrow> finishing s p"
    by (simp add: finishing_def Cons)
  have nt: "next_pid t = next_pid s" by (simp add: t_def)
  have one: "\<And>p. finishing s p \<Longrightarrow> 1 \<le> starts s p"
    using r unfolding run_once_def by blast
  have "run_once s'"
  proof (cases j)
    case (React q k v)
    show ?thesis
    proof (cases k)
      case (KRun p0)
      note ta = run_job_KRun_tally[where b=b and q=q and ?p0.0=p0 and v=v and t=t]
      show ?thesis
        using r
      proof (rule run_once_rule)
        show "next_pid s \<le> next_pid s'" using ta(4) by (simp add: s'_def React KRun nt)
        fix p :: pid
        have "starts s' p + waiting s' p \<le> starts s p + waiting s p"
          using ta(1)[of p] ta(2)[of p] st[of p] wt[of p]
          by (auto simp: s'_def React KRun)
        then show "starts s' p + waiting s' p
              \<le> starts s p + waiting s p
                 + (if p = (Handle, next_pid s) \<and> next_pid s < next_pid s' then 1 else 0)"
          by simp
        show "starts s p \<le> starts s' p" using ta(1)[of p] st[of p] by (simp add: s'_def React KRun)
        show "finishing s' p \<Longrightarrow> finishing s p \<or> 1 \<le> starts s' p"
          using ta(3)[of p] ta(1)[of p] ft[of p] by (auto simp: s'_def React KRun)
      qed
    next
      case (KBody p0)
      note ta = run_job_KBody_tally[where b=b and q=q and ?p0.0=p0 and v=v and t=t]
      have f0: "finishing s p0" by (rule fj) (simp add: React KBody)
      show ?thesis
        using r
      proof (rule run_once_rule)
        show "next_pid s \<le> next_pid s'" using ta(4) by (simp add: s'_def React KBody nt)
        fix p :: pid
        have "starts s' p + waiting s' p \<le> starts s p + waiting s p"
          using ta(1)[of p] ta(2)[of p] st[of p] wt[of p]
          by (auto simp: s'_def React KBody)
        then show "starts s' p + waiting s' p
              \<le> starts s p + waiting s p
                 + (if p = (Handle, next_pid s) \<and> next_pid s < next_pid s' then 1 else 0)"
          by simp
        show "starts s p \<le> starts s' p" using ta(1)[of p] st[of p] by (simp add: s'_def React KBody)
        show "finishing s' p \<Longrightarrow> finishing s p \<or> 1 \<le> starts s' p"
          using ta(3)[of p] ft[of p] f0 by (auto simp: s'_def React KBody)
      qed
    next
      case (KInit d)
      note ta = run_job_KInit_tally[where b=b and q=q and d=d and v=v and t=t]
      note rw = runWatch_tally[where s=t and b=b]
      show ?thesis
        using r
      proof (rule run_once_rule)
        show "next_pid s \<le> next_pid s'"
          using ta(4) rw(1) by (simp add: s'_def React KInit nt)
        fix p :: pid
        have "next_pid s < next_pid s'" using ta(4) rw(1) by (simp add: s'_def React KInit nt)
        moreover have "starts s' p + waiting s' p
              \<le> starts t p + waiting t p + (if p = (Handle, next_pid t) then 1 else 0)"
          using ta(1)[of p] ta(2)[of p] rw(3)[of p] by (simp add: s'_def React KInit)
        ultimately show "starts s' p + waiting s' p
              \<le> starts s p + waiting s p
                 + (if p = (Handle, next_pid s) \<and> next_pid s < next_pid s' then 1 else 0)"
          using st[of p] wt[of p] by (simp add: nt React KInit)
        show "starts s p \<le> starts s' p"
          using ta(1)[of p] rw(2)[of p] st[of p] by (simp add: s'_def React KInit)
        show "finishing s' p \<Longrightarrow> finishing s p \<or> 1 \<le> starts s' p"
          using ta(3)[of p] ta(1)[of p] rw(4)[of p] ft[of p] by (auto simp: s'_def React KInit)
      qed
    next
      case (KAdopt d)
      have d: "fst d = Derived" using jok by (simp add: React KAdopt)
      have e: "s' = resolve_promise d v t" by (simp add: s'_def run_job_def React KAdopt)
      show ?thesis
        using r
      proof (rule run_once_parts)
        show "next_pid s \<le> next_pid s'" by (simp add: e resolve_promise_def nt)
        fix p :: pid
        show "starts s' p = starts s p" using st[of p] by (simp add: e starts_def resolve_log)
        show "waiting s' p \<le> waiting s p" using wt[of p] by (simp add: e waiting_resolve)
        show "finishing s' p \<Longrightarrow> finishing s p"
          using finishing_resolve[of d v t p] ft[of p] d by (auto simp: e)
      qed
    qed
  next
    case (PassReject d e)
    have e: "s' = reject_promise d e t" by (simp add: s'_def run_job_def PassReject)
    show ?thesis
      using r
    proof (rule run_once_parts)
      show "next_pid s \<le> next_pid s'" by (simp add: e reject_promise_def nt)
      fix p :: pid
      show "starts s' p = starts s p" using st[of p] by (simp add: e starts_def reject_log)
      show "waiting s' p \<le> waiting s p"
        using wt[of p] waiting_reject[of d e t p] by (simp add: e)
      show "finishing s' p \<Longrightarrow> finishing s p"
        using finishing_reject[of d e t p] ft[of p] by (auto simp: e)
    qed
  next
    case (Thenable d x)
    have e: "s' = promise_then x (KAdopt d) t" by (simp add: s'_def run_job_def Thenable)
    show ?thesis
      using r
    proof (rule run_once_parts)
      show "next_pid s \<le> next_pid s'"
        by (simp add: e promise_then_def nt split: pstate.splits)
      fix p :: pid
      show "starts s' p = starts s p" using st[of p] by (simp add: e starts_def then_log)
      show "waiting s' p \<le> waiting s p"
        using wt[of p] waiting_then[of x "KAdopt d" t p] by (simp add: e)
      show "finishing s' p \<Longrightarrow> finishing s p"
        using finishing_then[of x "KAdopt d" t p] ft[of p] by (auto simp: e)
    qed
  qed
  then show ?thesis by (simp add: tk)
qed

text \<open>The other inputs.\<close>

lemma run_once_settle_body:
  assumes i: "inv s" and r: "run_once s"
  shows "run_once (settle_body bp out s)"
proof (cases "bp \<in> set (bodies s)")
  case False
  then show ?thesis using r by (simp add: settle_body_def)
next
  case True
  have "wf s" using i by (simp add: inv_def)
  then have k: "fst bp = BodyResult" using True unfolding wf_def by blast
  show ?thesis
  proof (cases out)
    case (Fulfil v)
    have e: "settle_body bp out s = resolve_promise bp v s"
      using True by (simp add: settle_body_def Fulfil)
    show ?thesis
      unfolding e using r
    proof (rule run_once_parts)
      show "next_pid s \<le> next_pid (resolve_promise bp v s)" by (simp add: resolve_promise_def)
      fix p :: pid
      show "starts (resolve_promise bp v s) p = starts s p" by (simp add: starts_def resolve_log)
      show "waiting (resolve_promise bp v s) p \<le> waiting s p" by (simp add: waiting_resolve)
      show "finishing (resolve_promise bp v s) p \<Longrightarrow> finishing s p"
        using finishing_resolve[of bp v s p] k by auto
    qed
  next
    case (Reject x)
    have e: "settle_body bp out s = reject_promise bp x s"
      using True by (simp add: settle_body_def Reject)
    show ?thesis
      unfolding e using r
    proof (rule run_once_parts)
      show "next_pid s \<le> next_pid (reject_promise bp x s)" by (simp add: reject_promise_def)
      fix p :: pid
      show "starts (reject_promise bp x s) p = starts s p" by (simp add: starts_def reject_log)
      show "waiting (reject_promise bp x s) p \<le> waiting s p" by (rule waiting_reject)
      show "finishing (reject_promise bp x s) p \<Longrightarrow> finishing s p" by (rule finishing_reject)
    qed
  qed
qed

lemma run_once_core:
  assumes r: "run_once s" and c: "core s' = core s"
    and l: "\<And>p. filter (is_start_of p) (log s') = filter (is_start_of p) (log s)"
  shows "run_once s'"
  using r
proof (rule run_once_parts)
  show "next_pid s \<le> next_pid s'" using core_eqD(5)[OF c] by simp
  fix p :: pid
  show "starts s' p = starts s p" using l[of p] by (simp add: starts_def)
  show "waiting s' p \<le> waiting s p" using waiting_core[OF c, of p] by simp
  show "finishing s' p \<Longrightarrow> finishing s p" using finishing_core[OF c, of p] by simp
qed

lemma run_once_notify:
  assumes r: "run_once s"
  shows "run_once (notify s)"
  using r core_notify by (rule run_once_core) (simp add: notify_def)

lemma run_once_destroyWatch:
  assumes r: "run_once s"
  shows "run_once (snd (destroyWatch c s))"
  using r core_destroyWatch by (rule run_once_core) (simp add: destroyWatch_log)

lemma run_once_restore:
  assumes r: "run_once s"
  shows "run_once (restore fl s)"
  using r
proof (rule run_once_parts)
  show "next_pid s \<le> next_pid (restore fl s)" by (simp add: restore_def)
  fix p :: pid
  show "starts (restore fl s) p = starts s p" by (simp add: restore_def starts_def)
  show "waiting (restore fl s) p \<le> waiting s p" by (simp add: restore_def waiting_def)
  show "finishing (restore fl s) p \<Longrightarrow> finishing s p"
    by (simp add: restore_def finishing_def split: if_splits)
qed

lemma run_once_useClientEffectQrl:
  assumes r: "run_once s"
  shows "run_once (useClientEffectQrl q e n opts ob s)"
proof -
  define s' where "s' = useClientEffectQrl q e n opts ob s"
  have a: "reactions s' = reactions s" "queue s' = queue s" "pstates s' = pstates s"
    "next_pid s' = next_pid s" "log s' = log s"
    by (simp_all add: s'_def useClientEffectQrl_def Let_def useRunWatch_def
          split: option.splits run_opt.splits)
  have "run_once s'"
    using r
  proof (rule run_once_parts)
    show "next_pid s \<le> next_pid s'" by (simp add: a)
    fix p :: pid
    show "starts s' p = starts s p" by (simp add: starts_def a)
    show "waiting s' p \<le> waiting s p" by (simp add: waiting_def a)
    show "finishing s' p \<Longrightarrow> finishing s p" by (simp add: finishing_def a)
  qed
  then show ?thesis by (simp add: s'_def)
qed

lemma run_once_useWatchQrl:
  assumes r: "run_once s"
  shows "run_once (useWatchQrl q e n srv opts s)"
proof (cases "slot s")
  case True
  then show ?thesis using r by (simp add: useWatchQrl_def)
next
  case False
  define s' where "s' = useWatchQrl q e n srv opts s"
  define p0 where "p0 = (Resolved, next_pid s)"
  define d where "d = (Derived, Suc (next_pid s))"
  have a: "reactions s' = reactions s" "queue s' = queue s @ [React p0 (KInit d) VUndefined]"
    "pstates s' = (pstates s)(p0 := Fulfilled VUndefined)"
    "next_pid s' = Suc (Suc (next_pid s))" "log s' = log s"
    using False
    by (simp_all add: s'_def useWatchQrl_def Let_def useRunWatch_def promise_resolve_def
          new_promise_def promise_then_def p0_def d_def split: option.splits run_opt.splits)
  have "run_once s'"
    using r
  proof (rule run_once_parts)
    show "next_pid s \<le> next_pid s'" by (simp add: a)
    fix p :: pid
    show "starts s' p = starts s p" by (simp add: starts_def a)
    show "waiting s' p \<le> waiting s p" by (simp add: waiting_def a)
    show "finishing s' p \<Longrightarrow> finishing s p"
      by (auto simp: finishing_def a p0_def split: if_splits)
  qed
  then show ?thesis by (simp add: s'_def)
qed

lemma run_once_step: "inv s \<Longrightarrow> run_once s \<Longrightarrow> run_once (step inp s)"
proof (cases inp)
  case (InUseWatchQrl q e n srv opts)
  then show "inv s \<Longrightarrow> run_once s \<Longrightarrow> run_once (step inp s)" by (simp add: run_once_useWatchQrl)
next
  case (InUseClientEffectQrl q e n opts ob)
  then show "inv s \<Longrightarrow> run_once s \<Longrightarrow> run_once (step inp s)"
    by (simp add: run_once_useClientEffectQrl)
next
  case (InRestore fl)
  then show "inv s \<Longrightarrow> run_once s \<Longrightarrow> run_once (step inp s)" by (simp add: run_once_restore)
next
  case (InRunWatch b)
  then show "inv s \<Longrightarrow> run_once s \<Longrightarrow> run_once (step inp s)" by (simp add: run_once_runWatch)
next
  case InNotify
  then show "inv s \<Longrightarrow> run_once s \<Longrightarrow> run_once (step inp s)" by (simp add: run_once_notify)
next
  case (InTick b)
  then show "inv s \<Longrightarrow> run_once s \<Longrightarrow> run_once (step inp s)" by (simp add: run_once_tick)
next
  case (InSettle bp out)
  then show "inv s \<Longrightarrow> run_once s \<Longrightarrow> run_once (step inp s)" by (simp add: run_once_settle_body)
next
  case (InDestroy c)
  then show "inv s \<Longrightarrow> run_once s \<Longrightarrow> run_once (step inp s)" by (simp add: run_once_destroyWatch)
qed

lemma run_once_fold: "inv s \<Longrightarrow> run_once s \<Longrightarrow> run_once (fold step ins s)"
  by (induction ins arbitrary: s) (simp_all add: run_once_step inv_step)

lemma run_once_run_inputs: "run_once (run_inputs ins blank)"
  unfolding run_inputs_def
proof (rule run_once_fold)
  show "inv blank" by (rule inv_blank)
  show "run_once blank"
    by (simp add: run_once_def starts_def waiting_def finishing_def blank_def)
qed

lemma starts_le_one: "starts (run_inputs ins blank) p \<le> 1"
  using run_once_run_inputs[of ins] unfolding run_once_def
  by (metis add_leD1)

lemma completed_started_once:
  assumes "pstates (run_inputs ins blank) (Handle, n) = Fulfilled w"
  shows "starts (run_inputs ins blank) (Handle, n) = 1"
proof -
  have "finishing (run_inputs ins blank) (Handle, n)" using assms by (simp add: finishing_def)
  then have "1 \<le> starts (run_inputs ins blank) (Handle, n)"
    using run_once_run_inputs[of ins] unfolding run_once_def by blast
  then show ?thesis using starts_le_one[of ins "(Handle, n)"] by simp
qed

lemma runWatch_destroy:
  assumes d: "f (watch s) AND WatchFlagsIsDirty \<noteq> 0" and r: "running (watch s) = None"
    and g: "destroy (watch (snd (runWatch b s))) = Some g"
  shows "ending b = Return (VFun g)"
proof -
  define s2 where
    "s2 = s\<lparr>watch := (watch s)\<lparr>f := f (watch s) AND NOT WatchFlagsIsDirty\<rparr>,
             next_pid := Suc (next_pid s)\<rparr>"
  define p where "p = (Handle, next_pid s)"
  have "watch (executor b p s2) = watch (snd (run_callback b p None s2))"
    using r
    by (cases "run_callback b p None s2")
       (auto simp: executor_alt reject_watch s2_def split: option.splits)
  moreover have "destroy (watch (snd (runWatch b s))) = destroy (watch (executor b p s2))"
    using d by (simp add: runWatch_def Let_def new_promise_def s2_def p_def)
  ultimately have "destroy (watch (snd (run_callback b p None s2))) = Some g" using g by simp
  then show ?thesis by (rule run_callback_destroy)
qed

lemma run_job_KRun_destroy:
  assumes g: "destroy (watch (run_job b (React q (KRun p) v) s)) = Some g"
  shows "ending b = Return (VFun g)"
proof -
  obtain r s' where rc: "run_callback b p (Some q) s = (r, s')"
    by (cases "run_callback b p (Some q) s")
  have "destroy (watch (run_job b (React q (KRun p) v) s)) = destroy (watch s')"
    using rc by (cases r) (simp_all add: run_job_def)
  then have "destroy (watch (snd (run_callback b p (Some q) s))) = Some g" using g rc by simp
  then show ?thesis by (rule run_callback_destroy)
qed

lemma cleanup_pending_state:
  "queue (run_inputs cleanup_pending blank) = [React (Handle, 0) (KRun (Handle, 1)) VWatch]"
  "destroy (watch (run_inputs cleanup_pending blank)) = Some (Fn 7 None)"
  "f (watch (run_inputs cleanup_pending blank)) = 0"
  "log (run_inputs cleanup_pending blank) = [EvRunStart (Handle, 0) None, EvClearSub, EvBody 0]"
  "slot (run_inputs cleanup_pending blank)"
  by (simp_all add: cleanup_pending_def eval_defs)

lemma cleanup_done_state:
  "pstates (run_inputs cleanup_done blank) (Handle, 1) = Fulfilled VWatch"
  "log (run_inputs cleanup_done blank)
     = [EvRunStart (Handle, 0) None, EvClearSub, EvBody 0,
        EvRunStart (Handle, 1) (Some (Handle, 0)), EvCall (Fn 7 None), EvClearSub, EvBody 0]"
  "destroy (watch (run_inputs cleanup_done blank)) = None"
  by (simp_all add: cleanup_done_def cleanup_pending_def eval_defs call_fn_def)

lemma log_tick_KInit:
  "queue s = React q (KInit d) v # js \<Longrightarrow>
   log (tick b s) = log (snd (runWatch b (s\<lparr>queue := js\<rparr>)))"
  by (simp add: tick_def run_job_def case_prod_beta)

text \<open>What one step appends to the log.\<close>

lemma log_runWatch_delta:
  "log (snd (runWatch b s)) = log s \<or> log (snd (runWatch b s)) = log s @ [EvLogDebug]
   \<or> (\<exists>p fl. log (snd (runWatch b s)) = log s @ segment p None (destroy (watch s)) fl)"
  unfolding runWatch_log by auto

lemma log_run_job_delta:
  "log (run_job b j s) = log s \<or> log (run_job b j s) = log s @ [EvLogDebug]
   \<or> (\<exists>p q fl u. log (run_job b j s) = log s @ segment p q (destroy (watch s)) fl @ u
                   \<and> (u = [] \<or> (\<exists>e. u = [EvUnhandled e])))"
proof (cases j)
  case (React q k v)
  show ?thesis
  proof (cases k)
    case (KRun p)
    have "log (run_job b j s)
          = log s @ segment p (Some q) (destroy (watch s)) (f (watch s))
             @ (case fst (run_callback b p (Some q) s) of None \<Rightarrow> [] | Some e \<Rightarrow> [EvUnhandled e])"
      unfolding React KRun by (rule run_job_KRun_log)
    moreover have "(case fst (run_callback b p (Some q) s) of None \<Rightarrow> [] | Some e \<Rightarrow> [EvUnhandled e]) = []
        \<or> (\<exists>e. (case fst (run_callback b p (Some q) s) of None \<Rightarrow> [] | Some e \<Rightarrow> [EvUnhandled e])
                 = [EvUnhandled e])"
      by (cases "fst (run_callback b p (Some q) s)") simp_all
    ultimately show ?thesis by blast
  next
    case (KBody p)
    then show ?thesis using React by (simp add: run_job_def body_callback_log)
  next
    case (KInit d)
    have "log (run_job b j s) = log (snd (runWatch b s))"
      by (simp add: run_job_def React KInit case_prod_beta)
    then show ?thesis using log_runWatch_delta[of b s] by force
  next
    case (KAdopt d)
    then show ?thesis using React by (simp add: run_job_def resolve_log)
  qed
next
  case (PassReject d e)
  then show ?thesis by (simp add: run_job_def reject_log)
next
  case (Thenable d r)
  then show ?thesis by (simp add: run_job_def then_log)
qed

lemma log_step_delta:
  "log (step inp s) = log s \<or> log (step inp s) = log s @ [EvLogDebug]
   \<or> (\<exists>c. log (step inp s) = log s @ [EvQrlCall c])
   \<or> log (step inp s) = log s @ cleanup_events (destroy (watch s))
   \<or> (\<exists>p q fl u. log (step inp s) = log s @ segment p q (destroy (watch s)) fl @ u
                   \<and> (u = [] \<or> (\<exists>e. u = [EvUnhandled e])))"
proof (cases inp)
  case (InUseWatchQrl q e n srv opts)
  then show ?thesis by (simp add: log_useWatchQrl)
next
  case (InUseClientEffectQrl q e n opts ob)
  then show ?thesis by (simp add: log_useClientEffectQrl)
next
  case (InRestore fl)
  then show ?thesis by (simp add: restore_def)
next
  case (InRunWatch b)
  show ?thesis
  proof (cases "slot s")
    case True
    then show ?thesis using log_runWatch_delta[of b s] InRunWatch by force
  next
    case False
    then show ?thesis using InRunWatch by simp
  qed
next
  case InNotify
  then show ?thesis by (simp add: notify_def)
next
  case (InTick b)
  show ?thesis
  proof (cases "slot s")
    case False
    then show ?thesis using InTick by simp
  next
    case True
    show ?thesis
    proof (cases "queue s")
      case Nil
      then show ?thesis using InTick True by (simp add: tick_def)
    next
      case (Cons j js)
      define t where "t = s\<lparr>queue := js\<rparr>"
      have e: "step inp s = run_job b j t"
        using InTick True Cons by (simp add: tick_def t_def)
      have lt: "log t = log s" "destroy (watch t) = destroy (watch s)" by (simp_all add: t_def)
      show ?thesis unfolding e using log_run_job_delta[of b j t] unfolding lt by blast
    qed
  qed
next
  case (InSettle bp out)
  then show ?thesis by (cases out) (simp_all add: settle_body_def resolve_log reject_log)
next
  case (InDestroy c)
  then show ?thesis by (auto simp: destroyWatch_log)
qed

lemma start_in_cleanup_events: "EvRunStart p q \<notin> set (cleanup_events d)"
  by (cases d; cases "fn_throws (the d)") (simp_all add: cleanup_events_def)

lemma step_starts_run:
  assumes a: "EvRunStart p q \<in> set (log (step inp s))" and b: "EvRunStart p q \<notin> set (log s)"
  shows "\<exists>fl u. log (step inp s)
                  = log s @ [EvRunStart p q] @ cleanup_events (destroy (watch s))
                          @ [EvClearSub, EvBody fl] @ u
               \<and> (u = [] \<or> (\<exists>e. u = [EvUnhandled e]))"
  using log_step_delta[of inp s]
proof (elim disjE exE conjE)
  assume "log (step inp s) = log s"
  then show ?thesis using a b by simp
next
  assume "log (step inp s) = log s @ [EvLogDebug]"
  then show ?thesis using a b by simp
next
  fix c assume "log (step inp s) = log s @ [EvQrlCall c]"
  then show ?thesis using a b by simp
next
  assume "log (step inp s) = log s @ cleanup_events (destroy (watch s))"
  then show ?thesis using a b start_in_cleanup_events by simp
next
  fix p' q' fl u
  assume l: "log (step inp s) = log s @ segment p' q' (destroy (watch s)) fl @ u" and u: "u = []"
  have "p' = p \<and> q' = q"
    using a b start_in_cleanup_events[of p q "destroy (watch s)"]
    unfolding l u by (simp add: segment_def)
  then show ?thesis using l u by (simp add: segment_def)
next
  fix p' q' fl u e
  assume l: "log (step inp s) = log s @ segment p' q' (destroy (watch s)) fl @ u"
    and u: "u = [EvUnhandled e]"
  have "p' = p \<and> q' = q"
    using a b start_in_cleanup_events[of p q "destroy (watch s)"]
    unfolding l u by (simp add: segment_def)
  then show ?thesis using l u by (simp add: segment_def)
qed

text \<open>
  Claim C4.  A run of a dirty descriptor calls the cleanup function stored by the previous
  run exactly once, strictly before its body, and empties the slot.

  The calls of a run, on each path by which \<^verbatim>\<open>runWatch\<close> gets to its run callback.
  With no previous handle the call itself logs: the start of the run, the calls of the
  cleanup (\<open>cleanup_events\<close> of the slot as the call found it: the stored function once,
  followed by the error log exactly when it threw; nothing when the slot is empty), the
  clearing of the subscriptions, the body.  With a previous handle \<open>q\<close> the call logs
  nothing and leaves the slot alone, and its run callback waits for \<open>q\<close>; the microtask
  that runs this callback logs the same calls, for the slot as the microtask found it.
  The microtask of \<^verbatim>\<open>useWatchQrl\<close> logs what its call of \<^verbatim>\<open>runWatch\<close> logs.  In each
  case the slot is empty after the cleanup, and a function found in the slot afterwards is
  the one the body of this run returned.  The same holds of the run callback taken alone.

  Over the steps of an execution: whatever the step, if a run starts in it then the step
  logs the start, the calls of the cleanup for the slot as it was before the step, the
  clearing of the subscriptions and the body, followed at most by the report of an
  exception nobody handles.  The log of every execution is made of such complete runs
  (\<open>segs_ok\<close>); no run starts twice; and the run of every fulfilled handle, that is every
  completed run, has started exactly once.
\<close>

theorem runWatch_cleanup_exactly_once:
  "(f (watch s) AND WatchFlagsIsDirty \<noteq> 0 \<and> running (watch s) = None \<longrightarrow>
      log (snd (runWatch b s))
        = log s @ [EvRunStart (Handle, next_pid s) None] @ cleanup_events (destroy (watch s))
                @ [EvClearSub, EvBody (f (watch s) AND NOT WatchFlagsIsDirty)]
      \<and> (\<forall>g. destroy (watch (snd (runWatch b s))) = Some g \<longrightarrow> ending b = Return (VFun g)))
   \<and> (f (watch s) AND WatchFlagsIsDirty \<noteq> 0 \<and> running (watch s) = Some q \<longrightarrow>
        log (snd (runWatch b s)) = log s
      \<and> destroy (watch (snd (runWatch b s))) = destroy (watch s)
      \<and> core (snd (runWatch b s))
          = core (promise_then q (KRun (Handle, next_pid s)) (with_handle s)))
   \<and> (queue s = React q (KRun p) v # js \<longrightarrow>
        log (tick b s)
          = log s @ [EvRunStart p (Some q)] @ cleanup_events (destroy (watch s))
                  @ [EvClearSub, EvBody (f (watch s))]
                  @ (case fst (run_callback b p (Some q) (s\<lparr>queue := js\<rparr>)) of
                       None \<Rightarrow> [] | Some e \<Rightarrow> [EvUnhandled e])
      \<and> (\<forall>g. destroy (watch (tick b s)) = Some g \<longrightarrow> ending b = Return (VFun g)))
   \<and> (queue s = React q (KInit x) v # js \<longrightarrow>
        log (tick b s) = log (snd (runWatch b (s\<lparr>queue := js\<rparr>))))
   \<and> (destroy (watch s) = Some d \<longrightarrow>
        cleanup_events (destroy (watch s))
          = EvCall d # (case fn_throws d of None \<Rightarrow> [] | Some e \<Rightarrow> [EvLogError e]))
   \<and> (destroy (watch s) = None \<longrightarrow> cleanup_events (destroy (watch s)) = [])
   \<and> destroy (watch (snd (cleanupWatch s))) = None
   \<and> log (snd (run_callback b p q2 s))
        = log s @ [EvRunStart p q2] @ cleanup_events (destroy (watch s))
                @ [EvClearSub, EvBody (f (watch s))]
   \<and> (\<forall>g. destroy (watch (snd (run_callback b p q2 s))) = Some g \<longrightarrow>
            ending b = Return (VFun g))
   \<and> (EvRunStart p1 q1 \<in> set (log (step inp s)) \<and> EvRunStart p1 q1 \<notin> set (log s) \<longrightarrow>
        (\<exists>fl u. log (step inp s)
                  = log s @ [EvRunStart p1 q1] @ cleanup_events (destroy (watch s))
                          @ [EvClearSub, EvBody fl] @ u
               \<and> (u = [] \<or> (\<exists>e. u = [EvUnhandled e]))))
   \<and> segs_ok (log (run_inputs ins blank))
   \<and> starts (run_inputs ins blank) p' \<le> 1
   \<and> (pstates (run_inputs ins blank) (Handle, n) = Fulfilled w \<longrightarrow>
        starts (run_inputs ins blank) (Handle, n) = 1)"
proof (intro conjI impI allI)
  assume a: "f (watch s) AND WatchFlagsIsDirty \<noteq> 0 \<and> running (watch s) = None"
  then show "log (snd (runWatch b s))
        = log s @ [EvRunStart (Handle, next_pid s) None] @ cleanup_events (destroy (watch s))
                @ [EvClearSub, EvBody (f (watch s) AND NOT WatchFlagsIsDirty)]"
    by (simp add: runWatch_log segment_def)
  fix g
  assume "destroy (watch (snd (runWatch b s))) = Some g"
  then show "ending b = Return (VFun g)" using a runWatch_destroy by blast
next
  assume a: "f (watch s) AND WatchFlagsIsDirty \<noteq> 0 \<and> running (watch s) = Some q"
  then show "log (snd (runWatch b s)) = log s" using runWatch_suspended(2) by blast
  show "destroy (watch (snd (runWatch b s))) = destroy (watch s)"
    using a runWatch_suspended(3) by blast
  show "core (snd (runWatch b s))
          = core (promise_then q (KRun (Handle, next_pid s)) (with_handle s))"
    using a runWatch_shape[of s b] by auto
next
  assume a: "queue s = React q (KRun p) v # js"
  then have tk: "tick b s = run_job b (React q (KRun p) v) (s\<lparr>queue := js\<rparr>)"
    by (simp add: tick_def)
  show "log (tick b s)
          = log s @ [EvRunStart p (Some q)] @ cleanup_events (destroy (watch s))
                  @ [EvClearSub, EvBody (f (watch s))]
                  @ (case fst (run_callback b p (Some q) (s\<lparr>queue := js\<rparr>)) of
                       None \<Rightarrow> [] | Some e \<Rightarrow> [EvUnhandled e])"
    unfolding tk run_job_KRun_log by (simp add: segment_def)
  fix g
  assume "destroy (watch (tick b s)) = Some g"
  then show "ending b = Return (VFun g)" unfolding tk by (rule run_job_KRun_destroy)
next
  assume "queue s = React q (KInit x) v # js"
  then show "log (tick b s) = log (snd (runWatch b (s\<lparr>queue := js\<rparr>)))"
    by (rule log_tick_KInit)
next
  assume "destroy (watch s) = Some d"
  then show "cleanup_events (destroy (watch s))
          = EvCall d # (case fn_throws d of None \<Rightarrow> [] | Some e \<Rightarrow> [EvLogError e])"
    by (simp add: cleanup_events_def)
next
  assume "destroy (watch s) = None"
  then show "cleanup_events (destroy (watch s)) = []" by (simp add: cleanup_events_def)
next
  show "destroy (watch (snd (cleanupWatch s))) = None"
    by (cases "destroy (watch s)") (simp_all add: cleanupWatch_Some cleanupWatch_None)
next
  show "log (snd (run_callback b p q2 s))
        = log s @ [EvRunStart p q2] @ cleanup_events (destroy (watch s))
                @ [EvClearSub, EvBody (f (watch s))]"
    by (simp add: run_callback_segment segment_def)
next
  fix g
  assume "destroy (watch (snd (run_callback b p q2 s))) = Some g"
  then show "ending b = Return (VFun g)" by (rule run_callback_destroy)
next
  assume "EvRunStart p1 q1 \<in> set (log (step inp s)) \<and> EvRunStart p1 q1 \<notin> set (log s)"
  then show "\<exists>fl u. log (step inp s)
                  = log s @ [EvRunStart p1 q1] @ cleanup_events (destroy (watch s))
                          @ [EvClearSub, EvBody fl] @ u
               \<and> (u = [] \<or> (\<exists>e. u = [EvUnhandled e]))"
    using step_starts_run[of p1 q1 inp s] by blast
next
  show "segs_ok (log (run_inputs ins blank))" by (rule segs_ok_run_inputs)
next
  show "starts (run_inputs ins blank) p' \<le> 1" by (rule starts_le_one)
next
  assume "pstates (run_inputs ins blank) (Handle, n) = Fulfilled w"
  then show "starts (run_inputs ins blank) (Handle, n) = 1" by (rule completed_started_once)
qed

theorem runWatch_cleanup_exactly_once_witness:
  "queue (run_inputs cleanup_pending blank) = [React (Handle, 0) (KRun (Handle, 1)) VWatch]
   \<and> destroy (watch (run_inputs cleanup_pending blank)) = Some (Fn 7 None)
   \<and> log (tick (Body [] (Return VUndefined)) (run_inputs cleanup_pending blank))
       = [EvRunStart (Handle, 0) None, EvClearSub, EvBody 0,
          EvRunStart (Handle, 1) (Some (Handle, 0)), EvCall (Fn 7 None), EvClearSub, EvBody 0]
   \<and> EvRunStart (Handle, 1) (Some (Handle, 0))
        \<in> set (log (step (InTick (Body [] (Return VUndefined))) (run_inputs cleanup_pending blank)))
   \<and> EvRunStart (Handle, 1) (Some (Handle, 0)) \<notin> set (log (run_inputs cleanup_pending blank))
   \<and> f (watch (run_inputs restored_dirty blank)) AND WatchFlagsIsDirty \<noteq> 0
   \<and> running (watch (run_inputs restored_dirty blank)) = None
   \<and> log (snd (runWatch (Body [] (Return (VFun (Fn 7 None)))) (run_inputs restored_dirty blank)))
       = [EvRunStart (Handle, 0) None, EvClearSub, EvBody 2]
   \<and> f (watch (run_inputs first_run blank)) AND WatchFlagsIsDirty \<noteq> 0
   \<and> running (watch (run_inputs first_run blank)) = Some (Handle, 0)
   \<and> log (snd (runWatch (Body [] (Return VUndefined)) (run_inputs first_run blank)))
       = [EvRunStart (Handle, 0) None, EvClearSub, EvBody 0]
   \<and> pstates (run_inputs cleanup_done blank) (Handle, 1) = Fulfilled VWatch
   \<and> starts (run_inputs cleanup_done blank) (Handle, 1) = 1"
proof -
  define t where "t = run_inputs cleanup_pending blank"
  define u where "u = run_inputs restored_dirty blank"
  define x where "x = run_inputs first_run blank"
  have tq: "queue t = React (Handle, 0) (KRun (Handle, 1)) VWatch # []"
    and td: "destroy (watch t) = Some (Fn 7 None)"
    and tf: "f (watch t) = 0"
    and tl: "log t = [EvRunStart (Handle, 0) None, EvClearSub, EvBody 0]"
    and ts: "slot t"
    by (simp_all add: t_def cleanup_pending_state)
  have ud: "f (watch u) AND WatchFlagsIsDirty \<noteq> 0 \<and> running (watch u) = None"
    unfolding u_def using restored_dirty_state(1,2) by blast
  have xd: "f (watch x) AND WatchFlagsIsDirty \<noteq> 0 \<and> running (watch x) = Some (Handle, 0)"
    unfolding x_def using first_run_state(1,2) by blast
  have fin: "pstates (run_inputs cleanup_done blank) (Handle, 1) = Fulfilled VWatch"
    by (rule cleanup_done_state(1))
  note a = runWatch_cleanup_exactly_once[where s=t and b="Body [] (Return VUndefined)"
        and q="(Handle, 0)" and p="(Handle, 1)" and v=VWatch and js="[]" and d="Fn 7 None"
        and ins=cleanup_done and n=1 and w=VWatch]
  note b = runWatch_cleanup_exactly_once[where s=u and b="Body [] (Return (VFun (Fn 7 None)))"]
  note c = runWatch_cleanup_exactly_once[where s=x and b="Body [] (Return VUndefined)"
        and q="(Handle, 0)"]
  have 1: "log (tick (Body [] (Return VUndefined)) t)
          = log t @ [EvRunStart (Handle, 1) (Some (Handle, 0))] @ cleanup_events (destroy (watch t))
                  @ [EvClearSub, EvBody (f (watch t))]
                  @ (case fst (run_callback (Body [] (Return VUndefined)) (Handle, 1)
                                 (Some (Handle, 0)) (t\<lparr>queue := []\<rparr>)) of
                       None \<Rightarrow> [] | Some e \<Rightarrow> [EvUnhandled e])"
    using a tq by blast
  have 2: "cleanup_events (destroy (watch t)) = [EvCall (Fn 7 None)]"
    using a td by simp
  have 3: "fst (run_callback (Body [] (Return VUndefined)) (Handle, 1)
                                 (Some (Handle, 0)) (t\<lparr>queue := []\<rparr>)) = None"
    by (simp add: run_callback_fst invoke_body_def Let_def)
  have 4: "log (snd (runWatch (Body [] (Return (VFun (Fn 7 None)))) u))
        = log u @ [EvRunStart (Handle, next_pid u) None] @ cleanup_events (destroy (watch u))
                @ [EvClearSub, EvBody (f (watch u) AND NOT WatchFlagsIsDirty)]"
    using b ud by blast
  have 5: "log (snd (runWatch (Body [] (Return VUndefined)) x)) = log x"
    using c xd by blast
  have 6: "starts (run_inputs cleanup_done blank) (Handle, 1) = 1"
    using a fin by blast
  have 7: "log u = []" "next_pid u = 0" "destroy (watch u) = None" "f (watch u) = 6"
    by (simp_all add: u_def restored_dirty_def eval_defs)
  have 8: "log (snd (runWatch (Body [] (Return (VFun (Fn 7 None)))) u))
        = [EvRunStart (Handle, 0) None, EvClearSub, EvBody 2]"
    unfolding 4 7 by (simp add: cleanup_events_def WatchFlagsIsDirty_def)
  have 9: "log (tick (Body [] (Return VUndefined)) t)
       = [EvRunStart (Handle, 0) None, EvClearSub, EvBody 0,
          EvRunStart (Handle, 1) (Some (Handle, 0)), EvCall (Fn 7 None), EvClearSub, EvBody 0]"
    unfolding 1 2 3 tl tf by simp
  have 10: "step (InTick (Body [] (Return VUndefined))) t = tick (Body [] (Return VUndefined)) t"
    using ts by simp
  have 11: "EvRunStart (Handle, 1) (Some (Handle, 0))
        \<in> set (log (step (InTick (Body [] (Return VUndefined))) t))"
    unfolding 10 9 by simp
  have 12: "EvRunStart (Handle, 1) (Some (Handle, 0)) \<notin> set (log t)"
    unfolding tl by simp
  show ?thesis
    using tq td 9 11 12 ud 8 xd 5 fin 6
    unfolding t_def[symmetric] u_def[symmetric] x_def[symmetric]
    by (simp add: x_def first_run_state(6))
qed

end
